theory Spec2Isabelle
  imports Main "HOL-Library.Sublist" "HOL-Library.List_Lexorder"
begin

section \<open>Python values\<close>

text \<open>
  A Python \<^verbatim>\<open>str\<close> is a sequence of Unicode code points, so a character is a natural
  number and a string a list of them.  \<open>py\<close> turns an ASCII literal into such a string.
  The only character beyond ASCII the program names is \<^verbatim>\<open>U+03B5\<close> (Greek small epsilon),
  which \<^verbatim>\<open>Parser.preprocess\<close> puts in place of the word \<^verbatim>\<open>eps\<close>.
\<close>

type_synonym pychar = nat
type_synonym pystr = "nat list"

abbreviation cp :: "char \<Rightarrow> pychar" where
  "cp c \<equiv> of_char c"

abbreviation py :: "string \<Rightarrow> pystr" where
  "py s \<equiv> map of_char s"

definition epsilon :: pychar where
  "epsilon = 949"

datatype py_error =
  IndexError | KeyError | TypeError | ValueError | AttributeError | StopIteration

text \<open>\<^verbatim>\<open>s.replace(old, new)\<close>: the occurrences of \<open>old\<close> are found from the left and do
  not overlap; an empty \<open>old\<close> matches before every character and at the end.\<close>

function str_replace :: "pystr \<Rightarrow> pystr \<Rightarrow> pystr \<Rightarrow> pystr" where
  "str_replace old new [] = (if old = [] then new else [])"
| "str_replace old new (c # cs) =
     (if old = [] then new @ c # str_replace old new cs
      else if prefix old (c # cs) then new @ str_replace old new (drop (length old) (c # cs))
      else c # str_replace old new cs)"
  by pat_completeness auto
termination
  by (relation "measure (\<lambda>(old, new, s). length s)") auto

text \<open>\<^verbatim>\<open>str(n)\<close> for a non-negative integer: its decimal digits, no leading zero.\<close>

function str_nat :: "nat \<Rightarrow> pystr" where
  "str_nat n = (if n < 10 then [48 + n] else str_nat (n div 10) @ [48 + n mod 10])"
  by pat_completeness auto
termination
  by (relation "measure id") auto

declare str_nat.simps [simp del]

text \<open>\<^verbatim>\<open>int(s)\<close> on a string of ASCII digits; any other string is a \<^verbatim>\<open>ValueError\<close>
  (the strings the program parses are those \<^verbatim>\<open>str\<close> wrote).\<close>

definition is_digit :: "pychar \<Rightarrow> bool" where
  "is_digit c = (48 \<le> c \<and> c \<le> 57)"

definition int_of_str :: "pystr \<Rightarrow> py_error + nat" where
  "int_of_str s =
     (if s \<noteq> [] \<and> list_all is_digit s then Inr (foldl (\<lambda>a d. 10 * a + (d - 48)) 0 s)
      else Inl ValueError)"

text \<open>\<^verbatim>\<open>sep.join(parts)\<close> and \<^verbatim>\<open>s.split(sep)\<close> for a one-character separator.\<close>

fun str_join :: "pystr \<Rightarrow> pystr list \<Rightarrow> pystr" where
  "str_join sep [] = []"
| "str_join sep [x] = x"
| "str_join sep (x # y # ys) = x @ sep @ str_join sep (y # ys)"

fun str_split :: "pychar \<Rightarrow> pystr \<Rightarrow> pystr list" where
  "str_split sep [] = [[]]"
| "str_split sep (c # cs) =
     (if c = sep then [] # str_split sep cs
      else (case str_split sep cs of [] \<Rightarrow> [[c]] | t # ts \<Rightarrow> (c # t) # ts))"

text \<open>\<^verbatim>\<open>needle in haystack\<close> on strings: a contiguous occurrence.\<close>

definition str_in :: "pystr \<Rightarrow> pystr \<Rightarrow> bool" where
  "str_in needle haystack = sublist needle haystack"


section \<open>Parser.py: from a regex to its prenex form\<close>

text \<open>Modelled from the spec: the classes \<^verbatim>\<open>Character\<close> and \<^verbatim>\<open>Operator\<close> of
  \<^verbatim>\<open>Regex.py\<close>, whose file is not among the sources.  The parser reads of them only
  what follows: a \<^verbatim>\<open>Character\<close> carries a string \<^verbatim>\<open>chr\<close>; an \<^verbatim>\<open>Operator\<close> is one
  of the seven constants of \<^verbatim>\<open>Parser.py\<close>, carries its glyph \<^verbatim>\<open>op\<close> and a rank
  \<^verbatim>\<open>priority\<close>, is equal only to itself, and cannot be iterated over.\<close>

datatype Operator = STAR | PLUS | MAYBE | UNION | CONCAT | L_BRACK | R_BRACK

datatype item = Character pystr | Op Operator

fun op_glyph :: "Operator \<Rightarrow> pychar" where
  "op_glyph STAR = cp CHR ''*''"
| "op_glyph PLUS = cp CHR ''+''"
| "op_glyph MAYBE = cp CHR ''?''"
| "op_glyph UNION = cp CHR ''|''"
| "op_glyph CONCAT = cp CHR ''.''"
| "op_glyph L_BRACK = cp CHR ''(''"
| "op_glyph R_BRACK = cp CHR '')''"

text \<open>Modelled from the spec: the precedence ranks of \<^verbatim>\<open>Regex.Operator\<close>, whose file
  is not among the sources.  The spec has the three repetition operators bind tightest
  with one rank, concatenation above union, and union lowest; the brackets get the
  rank below every operator, so that no operator pops a bracket.  The functions of the
  parser take the ranks as the parameter \<open>prio\<close>; this table instantiates it.\<close>

definition priority :: "Operator \<Rightarrow> int" where
  "priority x = (case x of STAR \<Rightarrow> 3 | PLUS \<Rightarrow> 3 | MAYBE \<Rightarrow> 3 | CONCAT \<Rightarrow> 2 | UNION \<Rightarrow> 1
                   | L_BRACK \<Rightarrow> 0 | R_BRACK \<Rightarrow> 0)"

fun is_Character :: "item \<Rightarrow> bool" where
  "is_Character (Character c) = True"
| "is_Character (Op x) = False"

definition needs_concat :: "item \<Rightarrow> item \<Rightarrow> bool" where
  "needs_concat x y =
     ((is_Character x \<and> is_Character y) \<or>
      (is_Character x \<and> y = Op L_BRACK) \<or>
      (x = Op R_BRACK \<and> is_Character y) \<or>
      (x = Op R_BRACK \<and> y = Op L_BRACK) \<or>
      (x = Op STAR \<and> is_Character y) \<or>
      (x = Op PLUS \<and> is_Character y) \<or>
      (x = Op MAYBE \<and> is_Character y) \<or>
      (x = Op STAR \<and> y = Op L_BRACK) \<or>
      (x = Op PLUS \<and> y = Op L_BRACK) \<or>
      (x = Op MAYBE \<and> y = Op L_BRACK))"

fun addConcat_loop :: "item list \<Rightarrow> item list" where
  "addConcat_loop (x # y # rest) =
     (if needs_concat x y then [x, Op CONCAT] else [x]) @ addConcat_loop (y # rest)"
| "addConcat_loop [x] = [x]"
| "addConcat_loop [] = []"

definition addConcatOp :: "item list \<Rightarrow> py_error + item list" where
  "addConcatOp rlist =
     (if length rlist = 1 then Inr rlist
      else if rlist = [] then Inl IndexError
      else Inr (addConcat_loop rlist))"

text \<open>The loop of \<^verbatim>\<open>preprocess\<close> that classifies the characters of the regex, after
  \<^verbatim>\<open>eps\<close> has been replaced: \<open>classify\<close> on the characters from index \<open>i\<close> on is the
  list the loop appends from there.  A quote takes the next character as a literal and
  skips one more; a \<^verbatim>\<open>[\<close> reads the characters at \<open>i + 1\<close> and \<open>i + 3\<close> and skips five.
  Reading past the end of the string is an \<^verbatim>\<open>IndexError\<close>.\<close>

definition then_items :: "item list \<Rightarrow> py_error + item list \<Rightarrow> py_error + item list" where
  "then_items xs r = (case r of Inl e \<Rightarrow> Inl e | Inr ys \<Rightarrow> Inr (xs @ ys))"

function classify :: "pystr \<Rightarrow> py_error + item list" where
  "classify [] = Inr []"
| "classify (c # rest) =
     (if c = cp CHR 0x27 then
        (case rest of
           [] \<Rightarrow> Inl IndexError
         | x # rest' \<Rightarrow>
             then_items
               [if x = 10 \<or> x = 9 \<or> x = 13 \<or> x = 32
                then Character [cp CHR 0x27, x, cp CHR 0x27] else Character [x]]
               (classify (drop 1 rest')))
      else if c = cp CHR ''('' then then_items [Op L_BRACK] (classify rest)
      else if c = cp CHR '')'' then then_items [Op R_BRACK] (classify rest)
      else if c = cp CHR ''*'' then then_items [Op STAR] (classify rest)
      else if c = cp CHR ''+'' then then_items [Op PLUS] (classify rest)
      else if c = cp CHR ''?'' then then_items [Op MAYBE] (classify rest)
      else if c = cp CHR ''|'' then then_items [Op UNION] (classify rest)
      else if c = cp CHR ''.'' then then_items [Op CONCAT] (classify rest)
      else if c = cp CHR ''['' then
        (if length rest < 3 then Inl IndexError
         else
           (let first = rest ! 0; last = rest ! 2
            in then_items
                 ([Op L_BRACK] @ concat (map (\<lambda>j. [Character [j], Op UNION]) [first..<last])
                    @ [Character [last], Op R_BRACK])
                 (classify (drop 4 rest))))
      else then_items [Character [c]] (classify rest))"
  by pat_completeness auto
termination
  by (relation "measure length") auto

definition preprocess :: "pystr \<Rightarrow> py_error + item list" where
  "preprocess regex =
     (case classify (str_replace (py ''eps'') [epsilon] regex) of
        Inl e \<Rightarrow> Inl e
      | Inr rlist \<Rightarrow> addConcatOp rlist)"

text \<open>The three \<^verbatim>\<open>while\<close> loops of \<^verbatim>\<open>toPrenexHelper\<close> on the operator stack, which is
  a list with its top first here; \<^verbatim>\<open>stack[-1]\<close> of an empty stack is an
  \<^verbatim>\<open>IndexError\<close>.\<close>

fun pop_to_bracket :: "Operator list \<Rightarrow> item list \<Rightarrow> py_error + Operator list \<times> item list" where
  "pop_to_bracket [] out = Inl IndexError"
| "pop_to_bracket (t # stack) out =
     (if t \<noteq> L_BRACK then pop_to_bracket stack (out @ [Op t]) else Inr (stack, out))"

fun pop_higher_or_equal ::
  "(Operator \<Rightarrow> int) \<Rightarrow> Operator \<Rightarrow> Operator list \<Rightarrow> item list
     \<Rightarrow> py_error + Operator list \<times> item list" where
  "pop_higher_or_equal prio x [] out = Inl IndexError"
| "pop_higher_or_equal prio x (t # stack) out =
     (if prio x \<le> prio t then pop_higher_or_equal prio x stack (out @ [Op t])
      else Inr (t # stack, out))"

fun pop_higher ::
  "(Operator \<Rightarrow> int) \<Rightarrow> Operator \<Rightarrow> Operator list \<Rightarrow> item list
     \<Rightarrow> py_error + Operator list \<times> item list" where
  "pop_higher prio x [] out = Inl IndexError"
| "pop_higher prio x (t # stack) out =
     (if prio x < prio t then pop_higher prio x stack (out @ [Op t])
      else Inr (t # stack, out))"

fun read_item ::
  "(Operator \<Rightarrow> int) \<Rightarrow> item \<Rightarrow> Operator list \<Rightarrow> item list
     \<Rightarrow> py_error + Operator list \<times> item list" where
  "read_item prio (Character c) stack out = Inr (stack, out @ [Character c])"
| "read_item prio (Op L_BRACK) stack out = Inr (L_BRACK # stack, out)"
| "read_item prio (Op R_BRACK) stack out = pop_to_bracket stack out"
| "read_item prio (Op STAR) stack out =
     (case pop_higher_or_equal prio STAR stack out of
        Inl e \<Rightarrow> Inl e
      | Inr (stack', out') \<Rightarrow> Inr (STAR # stack', out'))"
| "read_item prio (Op x) stack out =
     (case pop_higher prio x stack out of
        Inl e \<Rightarrow> Inl e
      | Inr (stack', out') \<Rightarrow> Inr (x # stack', out'))"

fun read_items ::
  "(Operator \<Rightarrow> int) \<Rightarrow> item list \<Rightarrow> Operator list \<Rightarrow> item list
     \<Rightarrow> py_error + Operator list \<times> item list" where
  "read_items prio [] stack out = Inr (stack, out)"
| "read_items prio (x # xs) stack out =
     (case read_item prio x stack out of
        Inl e \<Rightarrow> Inl e
      | Inr (stack', out') \<Rightarrow> read_items prio xs stack' out')"

text \<open>The keyword, or the text, that a member of \<open>out\<close> adds to the prenex string.\<close>

definition prenex_symbol :: "item \<Rightarrow> pystr" where
  "prenex_symbol x =
     (case x of
        Op oper \<Rightarrow>
          (if op_glyph oper = cp CHR ''.'' then py ''CONCAT ''
           else if op_glyph oper = cp CHR ''|'' then py ''UNION ''
           else if op_glyph oper = cp CHR ''*'' then py ''STAR ''
           else if op_glyph oper = cp CHR ''+'' then py ''PLUS ''
           else if op_glyph oper = cp CHR ''?'' then py ''MAYBE ''
           else [])
      | Character c \<Rightarrow> c @ py '' '')"

text \<open>\<^verbatim>\<open>toPrenexHelper\<close>: the pass over the items, the test that the stack is empty
  (the loop that empties it does \<^verbatim>\<open>out += stack.pop()\<close>, a \<^verbatim>\<open>TypeError\<close> for an
  operator), the string of keywords from \<open>out\<close> read backwards, the three replacements
  around control characters, the cut of the last character and the way back from the
  symbol of the empty string to \<^verbatim>\<open>eps\<close>.\<close>

definition toPrenexHelper :: "(Operator \<Rightarrow> int) \<Rightarrow> item list \<Rightarrow> py_error + pystr" where
  "toPrenexHelper prio regex =
     (case read_items prio regex [] [] of
        Inl e \<Rightarrow> Inl e
      | Inr (stack, out) \<Rightarrow>
          if stack \<noteq> [] then Inl TypeError
          else
            (let prefix0 = concat (map prenex_symbol (rev out));
                 prefix1 = str_replace [32, 10, 32] [10] prefix0;
                 prefix2 = str_replace [32, 13, 32] [13] prefix1;
                 prefix3 = str_replace [32, 9, 32] [9] prefix2
             in Inr (str_replace [epsilon] (py ''eps'') (butlast prefix3))))"

fun swap_bracket :: "item \<Rightarrow> item" where
  "swap_bracket (Op L_BRACK) = Op R_BRACK"
| "swap_bracket (Op R_BRACK) = Op L_BRACK"
| "swap_bracket x = x"

definition toPrenex :: "(Operator \<Rightarrow> int) \<Rightarrow> pystr \<Rightarrow> py_error + pystr" where
  "toPrenex prio regex =
     (case preprocess regex of
        Inl e \<Rightarrow> Inl e
      | Inr rlist \<Rightarrow>
          toPrenexHelper prio ([Op L_BRACK] @ map swap_bracket (rev rlist) @ [Op R_BRACK]))"

lemma str_replace_eps_append:
  assumes "w = [] \<or> (hd w \<noteq> cp CHR ''p'' \<and> hd w \<noteq> cp CHR ''s'')"
  shows "str_replace (py ''eps'') new (u @ w)
           = str_replace (py ''eps'') new u @ str_replace (py ''eps'') new w"
proof (induction "length u" arbitrary: u rule: less_induct)
  case less
  show ?case
  proof (cases u)
    case Nil
    then show ?thesis by simp
  next
    case u1: (Cons a u1)
    show ?thesis
    proof (cases u1)
      case Nil
      with u1 assms show ?thesis by (cases w) auto
    next
      case u2: (Cons b u2)
      show ?thesis
      proof (cases u2)
        case Nil
        have "str_replace (py ''eps'') new ([b] @ w)
                = str_replace (py ''eps'') new [b] @ str_replace (py ''eps'') new w"
          using less[of "[b]"] u1 u2 Nil by simp
        with u1 u2 Nil assms show ?thesis by (cases w) auto
      next
        case (Cons c rest)
        have r: "str_replace (py ''eps'') new (rest @ w)
                = str_replace (py ''eps'') new rest @ str_replace (py ''eps'') new w"
          using less[of rest] u1 u2 Cons by simp
        have t: "str_replace (py ''eps'') new ((b # c # rest) @ w)
                = str_replace (py ''eps'') new (b # c # rest) @ str_replace (py ''eps'') new w"
          using less[of "b # c # rest"] u1 u2 Cons by simp
        show ?thesis
        proof (cases "a = cp CHR ''e'' \<and> b = cp CHR ''p'' \<and> c = cp CHR ''s''")
          case True
          with r show ?thesis by (simp add: u1 u2 Cons)
        next
          case False
          with t show ?thesis by (auto simp: u1 u2 Cons)
        qed
      qed
    qed
  qed
qed

lemma str_replace_eps_occurrence:
  "str_replace (py ''eps'') [epsilon] (u @ py ''eps'' @ v)
     = str_replace (py ''eps'') [epsilon] u @ [epsilon] @ str_replace (py ''eps'') [epsilon] v"
  by (subst str_replace_eps_append) simp_all

lemma str_replace_eps_epsilon:
  "str_replace (py ''eps'') [epsilon] (u @ [epsilon] @ v)
     = str_replace (py ''eps'') [epsilon] u @ [epsilon] @ str_replace (py ''eps'') [epsilon] v"
  by (subst str_replace_eps_append) (simp_all add: epsilon_def)

text \<open>
  Claim C8.  \<open>preprocess\<close> rewrites \<^verbatim>\<open>eps\<close> before it looks at anything else, so an
  occurrence of the three characters is the empty-string symbol whatever stands around
  it: the regex with the occurrence and the regex with the symbol in its place are
  preprocessed alike, for every text \<open>u\<close> before and \<open>v\<close> after.  In particular a quote
  on either side does not protect the word, and a longer word that contains it is cut.
\<close>

theorem preprocess_replaces_eps_everywhere:
  "preprocess (u @ py ''eps'' @ v) = preprocess (u @ [epsilon] @ v) \<and>
   preprocess ([cp CHR 0x27] @ py ''eps'' @ [cp CHR 0x27]) = Inr [Character [epsilon]] \<and>
   preprocess (py ''steps'')
     = Inr [Character (py ''s''), Op CONCAT, Character (py ''t''), Op CONCAT, Character [epsilon]]"
proof -
  have "preprocess (u @ py ''eps'' @ v) = preprocess (u @ [epsilon] @ v)"
    unfolding preprocess_def str_replace_eps_occurrence str_replace_eps_epsilon ..
  moreover have "preprocess ([cp CHR 0x27] @ py ''eps'' @ [cp CHR 0x27]) = Inr [Character [epsilon]]"
    by (simp add: preprocess_def then_items_def addConcatOp_def epsilon_def)
  moreover have "preprocess (py ''steps'')
     = Inr [Character (py ''s''), Op CONCAT, Character (py ''t''), Op CONCAT, Character [epsilon]]"
    by (simp add: preprocess_def then_items_def addConcatOp_def epsilon_def needs_concat_def)
  ultimately show ?thesis by blast
qed

text \<open>
  Claim C6, as amended.  When an operator is read with \<open>t\<close> on top of the stack, an entry
  of strictly higher precedence is popped for every operator; an entry of equal
  precedence is popped only when the operator read is \<open>STAR\<close>, and stays under the new
  operator for \<open>PLUS\<close>, \<open>MAYBE\<close>, \<open>CONCAT\<close> and \<open>UNION\<close>; an entry of lower precedence
  always stays.  The ranks \<open>prio\<close> are those of the operator table.
\<close>

theorem read_operator_pop_thresholds:
  "(x \<in> {STAR, PLUS, MAYBE, CONCAT, UNION} \<and> prio x < prio t \<longrightarrow>
      read_item prio (Op x) (t # stack) out = read_item prio (Op x) stack (out @ [Op t])) \<and>
   (prio STAR = prio t \<longrightarrow>
      read_item prio (Op STAR) (t # stack) out = read_item prio (Op STAR) stack (out @ [Op t])) \<and>
   (x \<in> {PLUS, MAYBE, CONCAT, UNION} \<and> prio x = prio t \<longrightarrow>
      read_item prio (Op x) (t # stack) out = Inr (x # t # stack, out)) \<and>
   (x \<in> {STAR, PLUS, MAYBE, CONCAT, UNION} \<and> prio t < prio x \<longrightarrow>
      read_item prio (Op x) (t # stack) out = Inr (x # t # stack, out))"
  by (cases x) auto

theorem read_operator_pop_thresholds_witness:
  "priority STAR = priority MAYBE \<and>
   read_item priority (Op STAR) [MAYBE, L_BRACK] [Character (py ''a'')]
     = Inr ([STAR, L_BRACK], [Character (py ''a''), Op MAYBE]) \<and>
   priority UNION < priority CONCAT \<and>
   read_item priority (Op UNION) [CONCAT, L_BRACK] []
     = Inr ([UNION, L_BRACK], [Op CONCAT]) \<and>
   priority CONCAT = priority CONCAT \<and>
   read_item priority (Op CONCAT) [CONCAT, L_BRACK] [] = Inr ([CONCAT, CONCAT, L_BRACK], []) \<and>
   priority UNION < priority MAYBE \<and>
   read_item priority (Op MAYBE) [UNION, L_BRACK] [] = Inr ([MAYBE, UNION, L_BRACK], [])"
  using read_operator_pop_thresholds[of STAR priority MAYBE "[L_BRACK]" "[Character (py ''a'')]"]
        read_operator_pop_thresholds[of UNION priority CONCAT "[L_BRACK]" "[]"]
        read_operator_pop_thresholds[of CONCAT priority CONCAT "[L_BRACK]" "[]"]
        read_operator_pop_thresholds[of MAYBE priority UNION "[L_BRACK]" "[]"]
  by (simp add: priority_def)

text \<open>
  Claim C6 as stated fails for \<open>PLUS\<close> and \<open>MAYBE\<close>: read with a repetition operator on
  top of the stack, which has their own precedence, they leave it there.  So
  \<^verbatim>\<open>a++\<close> and \<^verbatim>\<open>a?+\<close> keep both operators, in the order written.
\<close>

theorem plus_maybe_keep_equal_precedence_counterexample:
  "read_item priority (Op PLUS) [PLUS, L_BRACK] [] = Inr ([PLUS, PLUS, L_BRACK], []) \<and>
   priority MAYBE = priority PLUS \<and>
   read_item priority (Op MAYBE) [PLUS, L_BRACK] [] = Inr ([MAYBE, PLUS, L_BRACK], []) \<and>
   toPrenex priority (py ''a++'') = Inr (py ''PLUS PLUS a'') \<and>
   toPrenex priority (py ''a?+'') = Inr (py ''PLUS MAYBE a'')"
  by (simp add: priority_def toPrenex_def preprocess_def then_items_def addConcatOp_def
        needs_concat_def toPrenexHelper_def prenex_symbol_def epsilon_def)


section \<open>AST.py: from the prenex form to the tree\<close>

datatype Node = Node (node_token: pystr) (num_children: nat) (children: "Node list")

fun customSplit_loop :: "pystr \<Rightarrow> pystr \<Rightarrow> bool \<Rightarrow> pystr list" where
  "customSplit_loop [] token in_quotes = [token]"
| "customSplit_loop (char # rest) token in_quotes =
     (let in_quotes' = (if char = cp CHR 0x27 then \<not> in_quotes else in_quotes)
      in if char = cp CHR '' '' \<and> \<not> in_quotes'
         then token # customSplit_loop rest [] in_quotes'
         else customSplit_loop rest (token @ [char]) in_quotes')"

fun index_of :: "'a list \<Rightarrow> 'a \<Rightarrow> nat" where
  "index_of [] x = 0"
| "index_of (y # ys) x = (if y = x then 0 else Suc (index_of ys x))"

function unquote_loop :: "nat \<Rightarrow> pystr list \<Rightarrow> pystr list" where
  "unquote_loop i tokens =
     (if i < length tokens then
        (let token = tokens ! i
         in unquote_loop (i + 1)
              (if length token = 3 \<and> token ! 0 = cp CHR 0x27 \<and> token ! 2 = cp CHR 0x27
               then tokens[index_of tokens token := [token ! 1]] else tokens))
      else tokens)"
  by pat_completeness auto
termination
  by (relation "measure (\<lambda>(i, tokens). length tokens - i)") (auto simp: Let_def)

declare unquote_loop.simps [simp del]

definition customSplit :: "pystr \<Rightarrow> pystr list" where
  "customSplit prenex = unquote_loop 0 (customSplit_loop prenex [] False)"

definition arity :: "pystr \<Rightarrow> nat" where
  "arity token =
     (if token \<in> set [py ''STAR'', py ''PLUS'', py ''MAYBE''] then 1
      else if token \<in> set [py ''UNION'', py ''CONCAT''] then 2
      else 0)"

definition createNode :: "pystr \<Rightarrow> Node" where
  "createNode token = Node token (arity token) []"

function fromPrenex :: "pystr list \<Rightarrow> py_error + Node \<times> pystr list"
  and build_children :: "nat \<Rightarrow> pystr list \<Rightarrow> py_error + Node list \<times> pystr list" where
  "fromPrenex [] = Inl StopIteration"
| "fromPrenex (token # rest) =
     (case build_children (num_children (createNode token)) rest of
        Inl e \<Rightarrow> Inl e
      | Inr (cs, rest') \<Rightarrow> Inr (Node token (num_children (createNode token)) cs, rest'))"
| "build_children 0 tokens = Inr ([], tokens)"
| "build_children (Suc n) tokens =
     (case fromPrenex tokens of
        Inl e \<Rightarrow> Inl e
      | Inr (child, rest) \<Rightarrow>
          (case build_children n rest of
             Inl e \<Rightarrow> Inl e
           | Inr (cs, rest') \<Rightarrow> Inr (child # cs, rest')))"
  by pat_completeness auto

lemma fromPrenex_consumes:
  "fromPrenex_build_children_dom (Inl ts) \<Longrightarrow> fromPrenex ts = Inr (node, r) \<Longrightarrow>
     length r < length ts"
  "fromPrenex_build_children_dom (Inr (k, ts)) \<Longrightarrow> build_children k ts = Inr (cs, r) \<Longrightarrow>
     length r \<le> length ts"
proof (induction ts and k ts arbitrary: node r and cs r rule: fromPrenex_build_children.pinduct)
  case 1
  then show ?case by (simp add: fromPrenex.psimps)
next
  case (2 token rest)
  then show ?case
    by (auto simp: fromPrenex.psimps split: sum.splits)
next
  case (3 tokens)
  then show ?case by (simp add: build_children.psimps)
next
  case (4 n tokens)
  then show ?case
    by (auto simp: build_children.psimps split: sum.splits) fastforce
qed

termination fromPrenex
proof (relation "(\<lambda>x. case x of Inl ts \<Rightarrow> length ts | Inr (k, ts) \<Rightarrow> length ts)
                     <*mlex*> (\<lambda>x. case x of Inl ts \<Rightarrow> 0 | Inr (k, ts) \<Rightarrow> Suc k) <*mlex*> {}",
       goal_cases)
  case 1
  then show ?case by (simp add: wf_mlex)
next
  case (2 token rest)
  then show ?case by (simp add: mlex_less)
next
  case (3 n tokens)
  then show ?case by (simp add: mlex_leq mlex_less)
next
  case (4 n tokens x child rest)
  then have "length rest < length tokens"
    using fromPrenex_consumes(1)[of tokens child rest] by simp
  then show ?case by (simp add: mlex_less)
qed

text \<open>The arity count of a prenex stream, read left to right: \<open>k\<close> subtrees are still
  owed; a token pays one and owes its own children.  The stream is exhausted when it
  ends while subtrees are owed.\<close>

fun exhausted :: "nat \<Rightarrow> pystr list \<Rightarrow> bool" where
  "exhausted k [] = (0 < k)"
| "exhausted k (t # ts) = (if k = 0 then False else exhausted (k - 1 + arity t) ts)"

lemma exhausted_zero [simp]: "exhausted 0 ts = False"
  by (cases ts) auto

lemma fromPrenex_exhausted:
  "(case fromPrenex ts of
      Inl e \<Rightarrow> e = StopIteration \<and> (\<forall>m. exhausted (1 + m) ts)
    | Inr (node, r) \<Rightarrow> (\<forall>m. exhausted (1 + m) ts = exhausted m r))"
  "(case build_children k ts of
      Inl e \<Rightarrow> e = StopIteration \<and> (\<forall>m. exhausted (k + m) ts)
    | Inr (cs, r) \<Rightarrow> (\<forall>m. exhausted (k + m) ts = exhausted m r))"
proof (induction ts and k ts rule: fromPrenex_build_children.induct)
  case 1
  then show ?case by simp
next
  case (2 token rest)
  then show ?case
    by (auto simp: createNode_def add.commute split: sum.splits)
next
  case (3 tokens)
  then show ?case by simp
next
  case (4 n tokens)
  show ?case
  proof (cases "fromPrenex tokens")
    case (Inl e)
    with "4.IH"(1) have "e = StopIteration" "\<And>m. exhausted (1 + m) tokens" by auto
    from this(2) have "\<And>m. exhausted (Suc n + m) tokens"
      by (metis add_Suc plus_1_eq_Suc)
    with Inl \<open>e = StopIteration\<close> show ?thesis by simp
  next
    case (Inr p)
    obtain child rest where p: "p = (child, rest)" by (cases p)
    from "4.IH"(1) Inr p have a: "\<And>m. exhausted (1 + m) tokens = exhausted m rest" by auto
    then have a': "\<And>m. exhausted (Suc n + m) tokens = exhausted (n + m) rest"
      by (metis add_Suc plus_1_eq_Suc)
    from "4.IH"(2)[OF Inr p[symmetric]] show ?thesis
      using Inr p a' by (auto split: sum.splits)
  qed
qed

lemma fromPrenex_extra:
  "fromPrenex ts = Inr (node, r) \<Longrightarrow> fromPrenex (ts @ extra) = Inr (node, r @ extra)"
  "build_children k ts = Inr (cs, r) \<Longrightarrow> build_children k (ts @ extra) = Inr (cs, r @ extra)"
proof (induction ts and k ts arbitrary: node r and cs r rule: fromPrenex_build_children.induct)
  case 1
  then show ?case by simp
next
  case (2 token rest)
  then show ?case by (auto split: sum.splits)
next
  case (3 tokens)
  then show ?case by auto
next
  case (4 n tokens)
  from "4.prems" obtain child rest cs' where
    f: "fromPrenex tokens = Inr (child, rest)" and
    b: "build_children n rest = Inr (cs', r)" and c: "cs = child # cs'"
    by (auto split: sum.splits)
  have "fromPrenex (tokens @ extra) = Inr (child, rest @ extra)"
    using "4.IH"(1)[OF f] .
  moreover have "build_children n (rest @ extra) = Inr (cs', r @ extra)"
    using "4.IH"(2)[OF f refl b] .
  ultimately show ?case by (simp add: c)
qed

lemma build_children_unfold:
  "build_children k ts =
     (if k = 0 then Inr ([], ts)
      else (case fromPrenex ts of
              Inl e \<Rightarrow> Inl e
            | Inr (child, rest) \<Rightarrow>
                (case build_children (k - 1) rest of
                   Inl e \<Rightarrow> Inl e
                 | Inr (cs, rest') \<Rightarrow> Inr (child # cs, rest'))))"
  by (cases k) (auto split: sum.splits)

text \<open>
  Claim C7.  \<open>fromPrenex\<close> reads the tokens from the left, each node taking as many
  children as its token's arity.  It fails, with the iterator's \<open>StopIteration\<close> and
  with nothing else, exactly when the stream ends while a child is still owed.  When it
  succeeds it returns the root with the tokens it did not read, and any tokens added
  after the stream leave the root unchanged and are left unread as well.
\<close>

theorem fromPrenex_fails_iff_exhausted:
  "(fromPrenex tokens = Inl StopIteration \<longleftrightarrow> exhausted 1 tokens) \<and>
   ((\<exists>node rest. fromPrenex tokens = Inr (node, rest)) \<longleftrightarrow> \<not> exhausted 1 tokens) \<and>
   (fromPrenex tokens = Inr (node, rest) \<longrightarrow>
      fromPrenex (tokens @ extra) = Inr (node, rest @ extra))"
proof -
  have "fromPrenex tokens = Inl StopIteration \<longleftrightarrow> exhausted 1 tokens"
    using fromPrenex_exhausted(1)[of tokens]
    by (cases "fromPrenex tokens") (auto dest: spec[of _ 0])
  moreover have "(\<exists>node rest. fromPrenex tokens = Inr (node, rest)) \<longleftrightarrow> \<not> exhausted 1 tokens"
    using fromPrenex_exhausted(1)[of tokens]
    by (cases "fromPrenex tokens") (auto dest: spec[of _ 0])
  ultimately show ?thesis using fromPrenex_extra(1) by blast
qed

theorem fromPrenex_fails_iff_exhausted_witness:
  "fromPrenex [py ''UNION'', py ''a'', py ''b'']
     = Inr (Node (py ''UNION'') 2 [Node (py ''a'') 0 [], Node (py ''b'') 0 []], []) \<and>
   fromPrenex ([py ''UNION'', py ''a'', py ''b''] @ [py ''c''])
     = Inr (Node (py ''UNION'') 2 [Node (py ''a'') 0 [], Node (py ''b'') 0 []], [py ''c'']) \<and>
   exhausted 1 [py ''UNION'', py ''a''] \<and>
   fromPrenex [py ''UNION'', py ''a''] = Inl StopIteration"
  using fromPrenex_fails_iff_exhausted
          [of "[py ''UNION'', py ''a'', py ''b'']"
              "Node (py ''UNION'') 2 [Node (py ''a'') 0 [], Node (py ''b'') 0 []]" "[]" "[py ''c'']"]
        fromPrenex_fails_iff_exhausted[of "[py ''UNION'', py ''a'']"]
  by (simp add: createNode_def arity_def build_children_unfold)


section \<open>NFA.py: Thompson's construction and the epsilon closures\<close>

text \<open>The dictionary of closures is the default argument \<^verbatim>\<open>{}\<close> of the constructor:
  one object for every NFA of the process, with the entries earlier constructions left
  in it.  The model passes it along as \<open>shared\<close>.\<close>

record NFA =
  nfa_q0 :: nat
  nfa_qf :: nat
  nfa_states :: "nat list"
  nfa_transitions :: "(nat \<times> pystr \<times> nat) list"
  epsilonClosures :: "nat \<rightharpoonup> nat set"

definition NFA_next :: "NFA \<Rightarrow> nat \<Rightarrow> pystr \<Rightarrow> nat list" where
  "NFA_next nfa from_state on_chr =
     map (\<lambda>(q0, c, q1). q1)
       (filter (\<lambda>(q0, c, q1). q0 = from_state \<and> c = on_chr) (nfa_transitions nfa))"

text \<open>\<^verbatim>\<open>computeEpsilonClosure\<close>: the helper marks a state and then visits, one after
  the other, the epsilon successors that are not marked when their turn comes.
  \<open>epsilonClosure_loop\<close> is the loop over the successors, with the recursive call of
  the helper inside; \<open>visited\<close> is the set that the source keeps twice, as \<^verbatim>\<open>visited\<close>
  and as \<^verbatim>\<open>currentEpsilonClosure\<close>.  The successors are a Python set; the model visits
  them in the order of the transition list.\<close>

function epsilonClosure_loop :: "NFA \<Rightarrow> nat list \<Rightarrow> nat set \<Rightarrow> nat set" where
  "epsilonClosure_loop nfa [] visited = visited"
| "epsilonClosure_loop nfa (next_state # rest) visited =
     (if next_state \<notin> visited
      then epsilonClosure_loop nfa rest
             (epsilonClosure_loop nfa (NFA_next nfa next_state (py ''eps''))
                (insert next_state visited))
      else epsilonClosure_loop nfa rest visited)"
  by pat_completeness auto

lemma epsilonClosure_loop_mono:
  "epsilonClosure_loop_dom (nfa, xs, visited) \<Longrightarrow> visited \<subseteq> epsilonClosure_loop nfa xs visited"
proof (induction nfa xs visited rule: epsilonClosure_loop.pinduct)
  case (1 nfa visited)
  then show ?case by (simp add: epsilonClosure_loop.psimps)
next
  case (2 nfa next_state rest visited)
  then show ?case by (auto simp: epsilonClosure_loop.psimps)
qed

definition targets :: "NFA \<Rightarrow> nat set" where
  "targets nfa = (\<lambda>(q0, c, q1). q1) ` set (nfa_transitions nfa)"

lemma NFA_next_targets: "set (NFA_next nfa s c) \<subseteq> targets nfa"
  by (force simp: NFA_next_def targets_def)

termination epsilonClosure_loop
proof (relation "(\<lambda>(nfa, xs, visited). card ((targets nfa \<union> set xs) - visited))
                   <*mlex*> (\<lambda>(nfa, xs, visited). length xs) <*mlex*> {}", goal_cases)
  case 1
  then show ?case by (simp add: wf_mlex)
next
  case (2 nfa next_state rest visited)
  have fin: "finite ((targets nfa \<union> set (next_state # rest)) - visited)"
    by (simp add: targets_def)
  have "(targets nfa \<union> set (NFA_next nfa next_state (py ''eps''))) - insert next_state visited
          \<subset> (targets nfa \<union> set (next_state # rest)) - visited"
    using 2 NFA_next_targets[of nfa next_state "py ''eps''"] by auto
  from psubset_card_mono[OF fin this] show ?case by (simp add: mlex_less)
next
  case (3 nfa next_state rest visited)
  have fin: "finite ((targets nfa \<union> set (next_state # rest)) - visited)"
    by (simp add: targets_def)
  let ?v = "epsilonClosure_loop nfa (NFA_next nfa next_state (py ''eps'')) (insert next_state visited)"
  have "insert next_state visited \<subseteq> ?v"
    using 3 by (intro epsilonClosure_loop_mono)
  then have "(targets nfa \<union> set rest) - ?v
          \<subseteq> (targets nfa \<union> set (next_state # rest)) - visited" by auto
  from card_mono[OF fin this] show ?case by (simp add: mlex_leq mlex_less)
next
  case (4 nfa next_state rest visited)
  have fin: "finite ((targets nfa \<union> set (next_state # rest)) - visited)"
    by (simp add: targets_def)
  have "(targets nfa \<union> set rest) - visited
          \<subseteq> (targets nfa \<union> set (next_state # rest)) - visited" by auto
  from card_mono[OF fin this] show ?case by (simp add: mlex_leq mlex_less)
qed

definition computeEpsilonClosure :: "NFA \<Rightarrow> nat \<Rightarrow> nat set" where
  "computeEpsilonClosure nfa state = epsilonClosure_loop nfa [state] {}"

definition atomNFA :: "(nat \<rightharpoonup> nat set) \<Rightarrow> pystr \<Rightarrow> nat \<Rightarrow> NFA \<times> nat" where
  "atomNFA shared ch curr_state_idx =
     (\<lparr>nfa_q0 = curr_state_idx, nfa_qf = curr_state_idx + 1,
       nfa_states = [curr_state_idx, curr_state_idx + 1],
       nfa_transitions = [(curr_state_idx, ch, curr_state_idx + 1)],
       epsilonClosures = shared\<rparr>, curr_state_idx + 2)"

definition concatNFA :: "(nat \<rightharpoonup> nat set) \<Rightarrow> NFA \<Rightarrow> NFA \<Rightarrow> NFA" where
  "concatNFA shared nfa1 nfa2 =
     \<lparr>nfa_q0 = nfa_q0 nfa1, nfa_qf = nfa_qf nfa2,
      nfa_states = nfa_states nfa1 @ nfa_states nfa2,
      nfa_transitions = [(nfa_qf nfa1, py ''eps'', nfa_q0 nfa2)]
         @ nfa_transitions nfa1 @ nfa_transitions nfa2,
      epsilonClosures = shared\<rparr>"

definition unionNFA :: "(nat \<rightharpoonup> nat set) \<Rightarrow> NFA \<Rightarrow> NFA \<Rightarrow> nat \<Rightarrow> NFA \<times> nat" where
  "unionNFA shared nfa1 nfa2 curr_state_idx =
     (let q0 = curr_state_idx; qf = curr_state_idx + 1 in
      (\<lparr>nfa_q0 = q0, nfa_qf = qf,
        nfa_states = [q0, qf] @ nfa_states nfa1 @ nfa_states nfa2,
        nfa_transitions =
          [(q0, py ''eps'', nfa_q0 nfa1), (q0, py ''eps'', nfa_q0 nfa2),
           (nfa_qf nfa1, py ''eps'', qf), (nfa_qf nfa2, py ''eps'', qf)]
          @ nfa_transitions nfa1 @ nfa_transitions nfa2,
        epsilonClosures = shared\<rparr>, curr_state_idx + 2))"

definition starNFA :: "(nat \<rightharpoonup> nat set) \<Rightarrow> NFA \<Rightarrow> nat \<Rightarrow> NFA \<times> nat" where
  "starNFA shared nfa curr_state_idx =
     (let q0 = curr_state_idx; qf = curr_state_idx + 1 in
      (\<lparr>nfa_q0 = q0, nfa_qf = qf,
        nfa_states = [q0, qf] @ nfa_states nfa,
        nfa_transitions =
          [(q0, py ''eps'', nfa_q0 nfa), (nfa_qf nfa, py ''eps'', qf),
           (q0, py ''eps'', qf), (nfa_qf nfa, py ''eps'', nfa_q0 nfa)]
          @ nfa_transitions nfa,
        epsilonClosures = shared\<rparr>, curr_state_idx + 2))"

definition plusNFA :: "(nat \<rightharpoonup> nat set) \<Rightarrow> NFA \<Rightarrow> nat \<Rightarrow> NFA \<times> nat" where
  "plusNFA shared nfa curr_state_idx =
     (let q0 = curr_state_idx; qf = curr_state_idx + 1 in
      (\<lparr>nfa_q0 = q0, nfa_qf = qf,
        nfa_states = [q0, qf] @ nfa_states nfa,
        nfa_transitions =
          [(q0, py ''eps'', nfa_q0 nfa), (nfa_qf nfa, py ''eps'', qf),
           (nfa_qf nfa, py ''eps'', nfa_q0 nfa)]
          @ nfa_transitions nfa,
        epsilonClosures = shared\<rparr>, curr_state_idx + 2))"

definition maybeNFA :: "(nat \<rightharpoonup> nat set) \<Rightarrow> NFA \<Rightarrow> NFA" where
  "maybeNFA shared nfa =
     \<lparr>nfa_q0 = nfa_q0 nfa, nfa_qf = nfa_qf nfa, nfa_states = nfa_states nfa,
      nfa_transitions = [(nfa_q0 nfa, py ''eps'', nfa_qf nfa)] @ nfa_transitions nfa,
      epsilonClosures = shared\<rparr>"

definition isAtom :: "pystr \<Rightarrow> bool" where
  "isAtom token =
     (if length token = 0 then False
      else if length token = 1 then True
      else if hd token = cp CHR 0x27 \<and> last token = cp CHR 0x27 \<and> length token = 3 then True
      else token \<in> set [py ''eps'', py ''void''])"

text \<open>\<^verbatim>\<open>NFA.fromAST\<close>.  The result \<open>None\<close> is Python's \<^verbatim>\<open>None\<close>, which the function
  returns for a token that is neither an atom nor an operator keyword; a combinator
  applied to it raises \<^verbatim>\<open>AttributeError\<close>.  The counter \<^verbatim>\<open>curr_state_idx\<close> is passed
  along; the arguments of a combinator are built from left to right.\<close>

fun fromAST :: "(nat \<rightharpoonup> nat set) \<Rightarrow> Node \<Rightarrow> nat \<Rightarrow> py_error + NFA option \<times> nat" where
  "fromAST shared (Node tok k cs) idx =
     (if isAtom tok then
        (case atomNFA shared tok idx of (nfa, idx') \<Rightarrow> Inr (Some nfa, idx'))
      else if tok = py ''STAR'' then
        (case cs of
           [] \<Rightarrow> Inl IndexError
         | c0 # _ \<Rightarrow>
            (case fromAST shared c0 idx of
               Inl e \<Rightarrow> Inl e
             | Inr (None, idx') \<Rightarrow> Inl AttributeError
             | Inr (Some nfa, idx') \<Rightarrow>
                 (case starNFA shared nfa idx' of (r, idx'') \<Rightarrow> Inr (Some r, idx''))))
      else if tok = py ''PLUS'' then
        (case cs of
           [] \<Rightarrow> Inl IndexError
         | c0 # _ \<Rightarrow>
            (case fromAST shared c0 idx of
               Inl e \<Rightarrow> Inl e
             | Inr (None, idx') \<Rightarrow> Inl AttributeError
             | Inr (Some nfa, idx') \<Rightarrow>
                 (case plusNFA shared nfa idx' of (r, idx'') \<Rightarrow> Inr (Some r, idx''))))
      else if tok = py ''MAYBE'' then
        (case cs of
           [] \<Rightarrow> Inl IndexError
         | c0 # _ \<Rightarrow>
            (case fromAST shared c0 idx of
               Inl e \<Rightarrow> Inl e
             | Inr (None, idx') \<Rightarrow> Inl AttributeError
             | Inr (Some nfa, idx') \<Rightarrow> Inr (Some (maybeNFA shared nfa), idx')))
      else if tok = py ''CONCAT'' then
        (case cs of
           [] \<Rightarrow> Inl IndexError
         | c0 # cs' \<Rightarrow>
            (case fromAST shared c0 idx of
               Inl e \<Rightarrow> Inl e
             | Inr (r1, idx1) \<Rightarrow>
                 (case cs' of
                    [] \<Rightarrow> Inl IndexError
                  | c1 # _ \<Rightarrow>
                     (case fromAST shared c1 idx1 of
                        Inl e \<Rightarrow> Inl e
                      | Inr (r2, idx2) \<Rightarrow>
                          (case (r1, r2) of
                             (Some nfa1, Some nfa2) \<Rightarrow>
                               Inr (Some (concatNFA shared nfa1 nfa2), idx2)
                           | _ \<Rightarrow> Inl AttributeError)))))
      else if tok = py ''UNION'' then
        (case cs of
           [] \<Rightarrow> Inl IndexError
         | c0 # cs' \<Rightarrow>
            (case fromAST shared c0 idx of
               Inl e \<Rightarrow> Inl e
             | Inr (r1, idx1) \<Rightarrow>
                 (case cs' of
                    [] \<Rightarrow> Inl IndexError
                  | c1 # _ \<Rightarrow>
                     (case fromAST shared c1 idx1 of
                        Inl e \<Rightarrow> Inl e
                      | Inr (r2, idx2) \<Rightarrow>
                          (case (r1, r2) of
                             (Some nfa1, Some nfa2) \<Rightarrow>
                               (case unionNFA shared nfa1 nfa2 idx2 of
                                  (r, idx3) \<Rightarrow> Inr (Some r, idx3))
                           | _ \<Rightarrow> Inl AttributeError)))))
      else Inr (None, idx))"

fun fill_closures :: "NFA \<Rightarrow> nat list \<Rightarrow> (nat \<rightharpoonup> nat set) \<Rightarrow> (nat \<rightharpoonup> nat set)" where
  "fill_closures nfa [] closures = closures"
| "fill_closures nfa (state # rest) closures =
     fill_closures nfa rest (closures(state \<mapsto> computeEpsilonClosure nfa state))"

definition NFA_fromPrenex :: "(nat \<rightharpoonup> nat set) \<Rightarrow> pystr \<Rightarrow> py_error + NFA" where
  "NFA_fromPrenex shared prenex =
     (case fromPrenex (customSplit prenex) of
        Inl e \<Rightarrow> Inl e
      | Inr (root, unread) \<Rightarrow>
          (case fromAST shared root 0 of
             Inl e \<Rightarrow> Inl e
           | Inr (None, idx) \<Rightarrow> Inl AttributeError
           | Inr (Some nfa, idx) \<Rightarrow>
               Inr (nfa\<lparr>epsilonClosures := fill_closures nfa (nfa_states nfa) shared\<rparr>)))"


section \<open>DFA.py: the automaton and its walk\<close>

record 'S DFA =
  q0 :: 'S
  qfs :: "'S list"
  states :: "'S list"
  transitions :: "('S \<times> pystr \<times> 'S) list"
  sink :: "'S option"

text \<open>\<^verbatim>\<open>DFA.next\<close>: the target of the first transition in the list that leaves
  \<open>from_state\<close> on \<open>on_chr\<close>; \<open>None\<close> when there is none.\<close>

fun next_loop :: "('S \<times> pystr \<times> 'S) list \<Rightarrow> 'S \<Rightarrow> pystr \<Rightarrow> 'S option" where
  "next_loop [] from_state on_chr = None"
| "next_loop ((state, c, next_state) # rest) from_state on_chr =
     (if state = from_state \<and> c = on_chr then Some next_state
      else next_loop rest from_state on_chr)"

definition DFA_next :: "'S DFA \<Rightarrow> 'S \<Rightarrow> pystr \<Rightarrow> 'S option" where
  "DFA_next dfa from_state on_chr = next_loop (transitions dfa) from_state on_chr"

definition isFinal :: "'S DFA \<Rightarrow> 'S \<Rightarrow> bool" where
  "isFinal dfa state = (state \<in> set (qfs dfa))"

text \<open>\<^verbatim>\<open>DFA.accepts\<close>: the loop over the characters of the string, leaving with
  \<open>False\<close> at the first undefined transition.\<close>

fun accepts_loop :: "'S DFA \<Rightarrow> 'S \<Rightarrow> pystr \<Rightarrow> bool" where
  "accepts_loop dfa state [] = isFinal dfa state"
| "accepts_loop dfa state (c # cs) =
     (case DFA_next dfa state [c] of
        None \<Rightarrow> False
      | Some state' \<Rightarrow> accepts_loop dfa state' cs)"

definition accepts :: "'S DFA \<Rightarrow> pystr \<Rightarrow> bool" where
  "accepts dfa str = accepts_loop dfa (q0 dfa) str"

text \<open>The state a walk from \<open>state\<close> is in after reading \<open>w\<close>, when every step of it is
  defined.  It is the yardstick the walk of \<open>accepts\<close> is measured against.\<close>

fun walk :: "'S DFA \<Rightarrow> 'S \<Rightarrow> pystr \<Rightarrow> 'S option" where
  "walk dfa state [] = Some state"
| "walk dfa state (c # cs) =
     (case DFA_next dfa state [c] of
        None \<Rightarrow> None
      | Some state' \<Rightarrow> walk dfa state' cs)"


section \<open>Properties of the walk\<close>

lemma walk_append:
  "walk dfa s (u @ v) = (case walk dfa s u of None \<Rightarrow> None | Some t \<Rightarrow> walk dfa t v)"
  by (induction u arbitrary: s) (auto split: option.splits)

lemma accepts_loop_walk:
  "accepts_loop dfa s w = (case walk dfa s w of None \<Rightarrow> False | Some t \<Rightarrow> isFinal dfa t)"
  by (induction w arbitrary: s) (auto split: option.splits)

text \<open>
  Claim C10.  \<open>accepts\<close> returns a truth value on every automaton and every string, with
  no exception: it answers \<open>True\<close> exactly when the whole walk is defined and ends in a
  final state, and a walk that reaches a state and a character with no transition
  makes it answer \<open>False\<close>, whatever follows in the string.
\<close>

theorem accepts_total_undefined_rejects:
  "(accepts dfa w \<longleftrightarrow> (\<exists>t. walk dfa (q0 dfa) w = Some t \<and> isFinal dfa t)) \<and>
   (walk dfa (q0 dfa) u = Some s \<and> DFA_next dfa s [c] = None
      \<longrightarrow> accepts dfa (u @ c # v) = False)"
  by (auto simp: accepts_def accepts_loop_walk walk_append split: option.splits)

theorem accepts_total_undefined_rejects_witness:
  "walk \<lparr>q0 = 0::nat, qfs = [1], states = [0, 1], transitions = [(0, py ''a'', 1)],
      sink = None\<rparr> 0 (py ''a'') = Some 1 \<and>
   DFA_next \<lparr>q0 = 0::nat, qfs = [1], states = [0, 1], transitions = [(0, py ''a'', 1)],
      sink = None\<rparr> 1 (py ''a'') = None \<and>
   accepts \<lparr>q0 = 0::nat, qfs = [1], states = [0, 1], transitions = [(0, py ''a'', 1)],
      sink = None\<rparr> (py ''aab'') = False \<and>
   accepts \<lparr>q0 = 0::nat, qfs = [1], states = [0, 1], transitions = [(0, py ''a'', 1)],
      sink = None\<rparr> (py ''a'') = True"
  using accepts_total_undefined_rejects
    [of "\<lparr>q0 = 0::nat, qfs = [1], states = [0, 1], transitions = [(0, py ''a'', 1)],
      sink = None\<rparr>" "py ''a''" "py ''a''" 1 "cp CHR ''a''" "py ''b''"]
  by (simp add: DFA_next_def isFinal_def)


section \<open>DFA.py: the subset construction\<close>

definition getAlphabet :: "NFA \<Rightarrow> pystr list" where
  "getAlphabet nfa =
     sorted_list_of_set
       (set (filter (\<lambda>c. c \<noteq> py ''eps'') (map (\<lambda>(q0, c, q1). c) (nfa_transitions nfa))))"

definition setToStr :: "nat set \<Rightarrow> pystr" where
  "setToStr sts = str_join (py ''_'') (map str_nat (sorted_list_of_set sts))"

fun ints_of :: "pystr list \<Rightarrow> py_error + nat list" where
  "ints_of [] = Inr []"
| "ints_of (s # rest) =
     (case int_of_str s of
        Inl e \<Rightarrow> Inl e
      | Inr n \<Rightarrow> (case ints_of rest of Inl e \<Rightarrow> Inl e | Inr ns \<Rightarrow> Inr (n # ns)))"

definition strToSet :: "pystr \<Rightarrow> py_error + nat set" where
  "strToSet str =
     (case ints_of (filter (\<lambda>state. length state > 0) (str_split (cp CHR ''_'') str)) of
        Inl e \<Rightarrow> Inl e
      | Inr ns \<Rightarrow> Inr (set ns))"

text \<open>The body of the loop over \<open>ch\<close>: the union of the closures of the states that the
  states of the group reach on \<open>ch\<close>; a state without an entry in the dictionary of
  closures is a \<^verbatim>\<open>KeyError\<close>.\<close>

definition next_state_group :: "NFA \<Rightarrow> pystr \<Rightarrow> pystr \<Rightarrow> py_error + nat set" where
  "next_state_group nfa last_group ch =
     (case strToSet last_group of
        Inl e \<Rightarrow> Inl e
      | Inr sts \<Rightarrow>
          (let next_states = (\<Union>state \<in> sts. set (NFA_next nfa state ch))
           in if \<exists>next_state \<in> next_states. epsilonClosures nfa next_state = None
              then Inl KeyError
              else Inr (\<Union>next_state \<in> next_states. the (epsilonClosures nfa next_state))))"

type_synonym dfa_build = "pystr list \<times> pystr list \<times> (pystr \<times> pystr \<times> pystr) list"

fun expand :: "NFA \<Rightarrow> pystr list \<Rightarrow> pystr \<Rightarrow> dfa_build \<Rightarrow> py_error + dfa_build" where
  "expand nfa [] last_group b = Inr b"
| "expand nfa (ch # alphabet) last_group (new_groups, sts, trs) =
     (case next_state_group nfa last_group ch of
        Inl e \<Rightarrow> Inl e
      | Inr g \<Rightarrow>
          (if setToStr g \<notin> set sts
           then expand nfa alphabet last_group
                  (new_groups @ [setToStr g], sts @ [setToStr g],
                   trs @ [(last_group, ch, setToStr g)])
           else expand nfa alphabet last_group
                  (new_groups, sts, trs @ [(last_group, ch, setToStr g)])))"

definition group_names :: "NFA \<Rightarrow> pystr set" where
  "group_names nfa =
     (\<lambda>T. setToStr (\<Union>t \<in> T. the (epsilonClosures nfa t))) ` Pow (targets nfa)"

lemma finite_group_names: "finite (group_names nfa)"
  by (simp add: group_names_def targets_def)

lemma next_state_group_name:
  "next_state_group nfa g ch = Inr grp \<Longrightarrow> setToStr grp \<in> group_names nfa"
proof -
  assume a: "next_state_group nfa g ch = Inr grp"
  then obtain sts where s: "strToSet g = Inr sts"
    by (auto simp: next_state_group_def split: sum.splits)
  let ?T = "\<Union>state \<in> sts. set (NFA_next nfa state ch)"
  from a s have "grp = (\<Union>t \<in> ?T. the (epsilonClosures nfa t))"
    by (auto simp: next_state_group_def Let_def split: if_splits)
  moreover have "?T \<subseteq> targets nfa"
    by (force simp: NFA_next_def targets_def)
  ultimately show ?thesis unfolding group_names_def by blast
qed

lemma expand_grows:
  "expand nfa alphabet g (new0, sts0, tr0) = Inr (new, sts, tr) \<Longrightarrow>
     \<exists>added. new = new0 @ added \<and> sts = sts0 @ added \<and>
             set added \<subseteq> group_names nfa - set sts0"
proof (induction alphabet arbitrary: new0 sts0 tr0)
  case Nil
  then show ?case by simp
next
  case (Cons ch alphabet)
  from Cons.prems obtain grp where grp: "next_state_group nfa g ch = Inr grp"
    by (auto split: sum.splits)
  have nm: "setToStr grp \<in> group_names nfa" using grp by (rule next_state_group_name)
  show ?case
  proof (cases "setToStr grp \<in> set sts0")
    case True
    with Cons.prems grp have
      "expand nfa alphabet g (new0, sts0, tr0 @ [(g, ch, setToStr grp)]) = Inr (new, sts, tr)"
      by simp
    from Cons.IH[OF this] show ?thesis .
  next
    case False
    with Cons.prems grp have
      "expand nfa alphabet g (new0 @ [setToStr grp], sts0 @ [setToStr grp],
          tr0 @ [(g, ch, setToStr grp)]) = Inr (new, sts, tr)"
      by simp
    from Cons.IH[OF this] obtain added where
      "new = (new0 @ [setToStr grp]) @ added" "sts = (sts0 @ [setToStr grp]) @ added"
      "set added \<subseteq> group_names nfa - set (sts0 @ [setToStr grp])" by blast
    with nm False show ?thesis
      by (intro exI[of _ "setToStr grp # added"]) auto
  qed
qed

function bfs ::
  "NFA \<Rightarrow> pystr list \<Rightarrow> pystr list \<Rightarrow> pystr list \<Rightarrow> (pystr \<times> pystr \<times> pystr) list
     \<Rightarrow> py_error + pystr list \<times> (pystr \<times> pystr \<times> pystr) list" where
  "bfs nfa alphabet [] sts trs = Inr (sts, trs)"
| "bfs nfa alphabet (last_group # last_groups) sts trs =
     (case expand nfa alphabet last_group ([], sts, trs) of
        Inl e \<Rightarrow> Inl e
      | Inr (new_groups, sts', trs') \<Rightarrow>
          bfs nfa alphabet (last_groups @ new_groups) sts' trs')"
  by pat_completeness auto
termination
proof (relation "(\<lambda>(nfa, alphabet, last_groups, sts, trs). card (group_names nfa - set sts))
                   <*mlex*> (\<lambda>(nfa, alphabet, last_groups, sts, trs). length last_groups)
                   <*mlex*> {}", goal_cases)
  case 1
  then show ?case by (simp add: wf_mlex)
next
  case (2 nfa alphabet last_group last_groups sts trs x2 new_groups y sts' trs')
  then have "expand nfa alphabet last_group ([], sts, trs) = Inr (new_groups, sts', trs')"
    by simp
  from expand_grows[OF this] have
    st: "sts' = sts @ new_groups" and sub: "set new_groups \<subseteq> group_names nfa - set sts"
    by auto
  show ?case
  proof (cases "new_groups = []")
    case True
    with st show ?thesis by (simp add: mlex_leq mlex_less)
  next
    case False
    then obtain n where n: "n \<in> set new_groups" by (cases new_groups) auto
    with sub have "n \<in> group_names nfa - set sts" by blast
    moreover have "n \<notin> group_names nfa - set sts'" using n st by simp
    moreover have "group_names nfa - set sts' \<subseteq> group_names nfa - set sts" using st by auto
    ultimately have "group_names nfa - set sts' \<subset> group_names nfa - set sts" by blast
    then have "card (group_names nfa - set sts') < card (group_names nfa - set sts)"
      by (intro psubset_card_mono) (simp_all add: finite_group_names)
    then show ?thesis by (simp add: mlex_less)
  qed
qed


text \<open>\<^verbatim>\<open>DFAMapper\<close>: the counter and the dictionary of the numbers given so far.  Its
  keys are the group names and \<^verbatim>\<open>None\<close>, since \<^verbatim>\<open>DFA.map\<close> also applies the mapping
  to the sink of the automaton, which is \<^verbatim>\<open>None\<close> when \<^verbatim>\<open>fromNFA\<close> calls it.\<close>

record DFAMapper =
  counter :: nat
  mapping :: "pystr option \<rightharpoonup> nat"

definition get_mapping :: "pystr option \<Rightarrow> DFAMapper \<Rightarrow> nat \<times> DFAMapper" where
  "get_mapping x m =
     (case mapping m x of
        None \<Rightarrow> (counter m, \<lparr>counter = counter m + 1, mapping = (mapping m)(x \<mapsto> counter m)\<rparr>)
      | Some n \<Rightarrow> (n, m))"

fun map_states :: "pystr list \<Rightarrow> DFAMapper \<Rightarrow> nat list \<times> DFAMapper" where
  "map_states [] m = ([], m)"
| "map_states (s # rest) m =
     (case get_mapping (Some s) m of
        (n, m1) \<Rightarrow> (case map_states rest m1 of (ns, m2) \<Rightarrow> (n # ns, m2)))"

fun map_transitions ::
  "(pystr \<times> pystr \<times> pystr) list \<Rightarrow> DFAMapper \<Rightarrow> (nat \<times> pystr \<times> nat) list \<times> DFAMapper" where
  "map_transitions [] m = ([], m)"
| "map_transitions ((s0, c, s1) # rest) m =
     (case get_mapping (Some s0) m of
        (n0, m1) \<Rightarrow>
          (case get_mapping (Some s1) m1 of
             (n1, m2) \<Rightarrow>
               (case map_transitions rest m2 of (ts, m3) \<Rightarrow> ((n0, c, n1) # ts, m3))))"

text \<open>\<^verbatim>\<open>dfa.map(DFAMapper().get_mapping)\<close>: the arguments of the constructor are
  evaluated in the order start state, final states, states, transitions, sink.\<close>

definition DFA_map_get_mapping :: "pystr DFA \<Rightarrow> nat DFA \<times> DFAMapper" where
  "DFA_map_get_mapping dfa =
     (case get_mapping (Some (q0 dfa)) \<lparr>counter = 0, mapping = Map.empty\<rparr> of
        (start, m1) \<Rightarrow>
     (case map_states (qfs dfa) m1 of
        (finals, m2) \<Rightarrow>
     (case map_states (states dfa) m2 of
        (sts, m3) \<Rightarrow>
     (case map_transitions (transitions dfa) m3 of
        (trs, m4) \<Rightarrow>
     (case get_mapping (sink dfa) m4 of
        (snk, m5) \<Rightarrow>
          (\<lparr>q0 = start, qfs = finals, states = sts, transitions = trs, sink = Some snk\<rparr>,
           m5))))))"

definition is_sink :: "nat DFA \<Rightarrow> pystr list \<Rightarrow> nat \<Rightarrow> bool" where
  "is_sink dfa alphabet state =
     (list_all (\<lambda>ch. DFA_next dfa state ch = Some state) alphabet \<and> \<not> isFinal dfa state)"

definition set_sink :: "nat DFA \<Rightarrow> pystr list \<Rightarrow> nat DFA" where
  "set_sink dfa alphabet =
     (case find (is_sink dfa alphabet) (states dfa) of
        None \<Rightarrow> dfa
      | Some state \<Rightarrow> dfa\<lparr>sink := Some state\<rparr>)"

fun fill_state :: "nat \<Rightarrow> nat \<Rightarrow> pystr list \<Rightarrow> nat DFA \<Rightarrow> nat DFA" where
  "fill_state snk state [] dfa = dfa"
| "fill_state snk state (ch # alphabet) dfa =
     fill_state snk state alphabet
       (if DFA_next dfa state ch = None
        then dfa\<lparr>transitions := transitions dfa @ [(state, ch, snk)]\<rparr> else dfa)"

fun fill_states :: "nat \<Rightarrow> nat list \<Rightarrow> pystr list \<Rightarrow> nat DFA \<Rightarrow> nat DFA" where
  "fill_states snk [] alphabet dfa = dfa"
| "fill_states snk (state # rest) alphabet dfa =
     fill_states snk rest alphabet (fill_state snk state alphabet dfa)"

definition add_sink :: "nat DFA \<Rightarrow> pystr list \<Rightarrow> nat DFA" where
  "add_sink dfa alphabet =
     (case sink dfa of
        Some s \<Rightarrow> dfa
      | None \<Rightarrow>
          (let snk = length (states dfa) + 1;
               dfa1 = dfa\<lparr>sink := Some snk, states := states dfa @ [snk]\<rparr>
           in fill_states snk (states dfa1) alphabet dfa1))"

text \<open>The automaton over group names that the worklist loop and the choice of the
  final states leave, before the states are numbered.\<close>

definition subset_construction :: "NFA \<Rightarrow> py_error + pystr DFA" where
  "subset_construction nfa =
     (case epsilonClosures nfa (nfa_q0 nfa) of
        None \<Rightarrow> Inl KeyError
      | Some closure \<Rightarrow>
          (let q0_group = setToStr closure in
           case bfs nfa (getAlphabet nfa) [q0_group] [q0_group] [] of
             Inl e \<Rightarrow> Inl e
           | Inr (sts, trs) \<Rightarrow>
               Inr \<lparr>q0 = q0_group,
                    qfs = filter (\<lambda>state. str_in (str_nat (nfa_qf nfa)) state) sts,
                    states = sts, transitions = trs, sink = None\<rparr>))"

definition DFA_fromNFA :: "NFA \<Rightarrow> py_error + nat DFA" where
  "DFA_fromNFA nfa =
     (case subset_construction nfa of
        Inl e \<Rightarrow> Inl e
      | Inr dfa \<Rightarrow>
          Inr (add_sink (set_sink (fst (DFA_map_get_mapping dfa)) (getAlphabet nfa))
                 (getAlphabet nfa)))"

definition DFA_fromPrenex :: "(nat \<rightharpoonup> nat set) \<Rightarrow> pystr \<Rightarrow> py_error + nat DFA" where
  "DFA_fromPrenex shared prenex =
     (case NFA_fromPrenex shared prenex of
        Inl e \<Rightarrow> Inl e
      | Inr nfa \<Rightarrow> DFA_fromNFA nfa)"



lemma star_a_code: "DFA_fromPrenex Map.empty (py ''STAR a'')
   = Inr \<lparr>q0 = 0, qfs = [0, 1], states = [0, 1],
          transitions = [(0, py ''a'', 1), (1, py ''a'', 1)], sink = Some 2\<rparr>"
  by code_simp

text \<open>The chain that \<^verbatim>\<open>Lexer.__init__\<close> runs on each regex:
  \<^verbatim>\<open>Parser.toPrenex\<close>, \<^verbatim>\<open>NFA.fromPrenex\<close>, \<^verbatim>\<open>DFA.fromNFA\<close>.\<close>

definition compile_regex ::
  "(Operator \<Rightarrow> int) \<Rightarrow> (nat \<rightharpoonup> nat set) \<Rightarrow> pystr \<Rightarrow> py_error + nat DFA" where
  "compile_regex prio shared regex =
     (case toPrenex prio regex of
        Inl e \<Rightarrow> Inl e
      | Inr prenex \<Rightarrow> DFA_fromPrenex shared prenex)"













section \<open>Decimal names of state sets\<close>

















section \<open>Thompson automata\<close>




















section \<open>The numbering of the groups\<close>

definition mapper_ok :: "DFAMapper \<Rightarrow> bool" where
  "mapper_ok m =
     ((\<forall>k n. mapping m k = Some n \<longrightarrow> n < counter m) \<and> inj_on (mapping m) (dom (mapping m)))"

lemma get_mapping_ok:
  assumes "mapper_ok m" "get_mapping x m = (n, m')"
  shows "mapper_ok m' \<and> mapping m' x = Some n \<and> mapping m \<subseteq>\<^sub>m mapping m'"
proof (cases "mapping m x")
  case None
  with assms(2) have m': "m' = \<lparr>counter = counter m + 1, mapping = (mapping m)(x \<mapsto> counter m)\<rparr>"
    and n: "n = counter m" by (auto simp: get_mapping_def)
  have "inj_on ((mapping m)(x \<mapsto> counter m)) (insert x (dom (mapping m)))"
  proof (rule inj_onI)
    fix a b
    assume a: "a \<in> insert x (dom (mapping m))" and b: "b \<in> insert x (dom (mapping m))"
      and e: "((mapping m)(x \<mapsto> counter m)) a = ((mapping m)(x \<mapsto> counter m)) b"
    show "a = b"
    proof (cases "a = x")
      case True
      show ?thesis
      proof (cases "b = x")
        case True
        with \<open>a = x\<close> show ?thesis by simp
      next
        case False
        with b obtain v where "mapping m b = Some v" by auto
        moreover from this assms(1) have "v < counter m" by (auto simp: mapper_ok_def)
        ultimately show ?thesis using e True False by simp
      qed
    next
      case False
      with a obtain v where v: "mapping m a = Some v" by auto
      with assms(1) have lt: "v < counter m" by (auto simp: mapper_ok_def)
      show ?thesis
      proof (cases "b = x")
        case True
        with e False v lt show ?thesis by simp
      next
        case bx: False
        with e False have "mapping m a = mapping m b" by simp
        moreover have "a \<in> dom (mapping m)" "b \<in> dom (mapping m)" using a b False bx by auto
        ultimately show ?thesis using assms(1) by (auto simp: mapper_ok_def dest: inj_onD)
      qed
    qed
  qed
  moreover have "\<forall>k v. ((mapping m)(x \<mapsto> counter m)) k = Some v \<longrightarrow> v < counter m + 1"
    using assms(1) by (auto simp: mapper_ok_def less_Suc_eq)
  moreover have "mapping m \<subseteq>\<^sub>m (mapping m)(x \<mapsto> counter m)"
    using None by (auto simp: map_le_def)
  ultimately show ?thesis by (simp add: m' n mapper_ok_def)
next
  case (Some v)
  with assms show ?thesis by (auto simp: get_mapping_def)
qed

lemma map_states_ok:
  "mapper_ok m \<Longrightarrow> map_states xs m = (ns, m') \<Longrightarrow>
     mapper_ok m' \<and> mapping m \<subseteq>\<^sub>m mapping m' \<and>
     ns = map (\<lambda>s. the (mapping m' (Some s))) xs \<and> Some ` set xs \<subseteq> dom (mapping m')"
proof (induction xs arbitrary: m ns m')
  case Nil
  then show ?case by simp
next
  case (Cons x xs)
  obtain n m1 where g: "get_mapping (Some x) m = (n, m1)" by (cases "get_mapping (Some x) m")
  obtain ns1 m2 where r: "map_states xs m1 = (ns1, m2)" by (cases "map_states xs m1")
  from g r Cons.prems(2) have res: "ns = n # ns1" "m' = m2" by auto
  from get_mapping_ok[OF Cons.prems(1) g] have
    ok1: "mapper_ok m1" and x: "mapping m1 (Some x) = Some n" and le1: "mapping m \<subseteq>\<^sub>m mapping m1"
    by auto
  from Cons.IH[OF ok1 r] have
    ok2: "mapper_ok m2" and le2: "mapping m1 \<subseteq>\<^sub>m mapping m2"
    and ns1: "ns1 = map (\<lambda>s. the (mapping m2 (Some s))) xs"
    and dom: "Some ` set xs \<subseteq> dom (mapping m2)" by auto
  from x le2 have x2: "mapping m2 (Some x) = Some n"
    by (metis domI map_le_def)
  from le1 le2 have "mapping m \<subseteq>\<^sub>m mapping m2" by (rule map_le_trans)
  with ok2 ns1 dom x2 show ?case by (auto simp: res)
qed

lemma map_transitions_ok:
  "mapper_ok m \<Longrightarrow> map_transitions ts m = (r, m') \<Longrightarrow>
     mapper_ok m' \<and> mapping m \<subseteq>\<^sub>m mapping m'"
proof (induction ts arbitrary: m r m')
  case Nil
  then show ?case by simp
next
  case (Cons t ts)
  obtain s0 c s1 where t: "t = (s0, c, s1)" by (cases t)
  obtain n0 m1 where g0: "get_mapping (Some s0) m = (n0, m1)" by (cases "get_mapping (Some s0) m")
  obtain n1 m2 where g1: "get_mapping (Some s1) m1 = (n1, m2)" by (cases "get_mapping (Some s1) m1")
  obtain r1 m3 where rr: "map_transitions ts m2 = (r1, m3)" by (cases "map_transitions ts m2")
  from t g0 g1 rr Cons.prems(2) have res: "m' = m3" by auto
  from get_mapping_ok[OF Cons.prems(1) g0] have ok1: "mapper_ok m1" and le1: "mapping m \<subseteq>\<^sub>m mapping m1"
    by auto
  from get_mapping_ok[OF ok1 g1] have ok2: "mapper_ok m2" and le2: "mapping m1 \<subseteq>\<^sub>m mapping m2"
    by auto
  from Cons.IH[OF ok2 rr] have ok3: "mapper_ok m3" and le3: "mapping m2 \<subseteq>\<^sub>m mapping m3" by auto
  from le1 le2 le3 have "mapping m \<subseteq>\<^sub>m mapping m3" by (blast intro: map_le_trans)
  with ok3 show ?case by (simp add: res)
qed

text \<open>The number that \<open>DFAMapper\<close> has given to a group when \<open>DFA.map\<close> returns.\<close>

definition group_number :: "pystr DFA \<Rightarrow> pystr \<Rightarrow> nat" where
  "group_number dfa g = the (mapping (snd (DFA_map_get_mapping dfa)) (Some g))"

lemma DFA_map_get_mapping_numbers:
  "states (fst (DFA_map_get_mapping d)) = map (group_number d) (states d) \<and>
   qfs (fst (DFA_map_get_mapping d)) = map (group_number d) (qfs d) \<and>
   inj_on (group_number d) (set (states d) \<union> set (qfs d)) \<and>
   sink (fst (DFA_map_get_mapping d)) \<noteq> None"
proof -
  let ?m0 = "\<lparr>counter = 0, mapping = Map.empty\<rparr>"
  have ok0: "mapper_ok ?m0" by (simp add: mapper_ok_def)
  obtain start m1 where g1: "get_mapping (Some (q0 d)) ?m0 = (start, m1)"
    by (cases "get_mapping (Some (q0 d)) ?m0")
  obtain finals m2 where g2: "map_states (qfs d) m1 = (finals, m2)"
    by (cases "map_states (qfs d) m1")
  obtain sts m3 where g3: "map_states (states d) m2 = (sts, m3)"
    by (cases "map_states (states d) m2")
  obtain trs m4 where g4: "map_transitions (transitions d) m3 = (trs, m4)"
    by (cases "map_transitions (transitions d) m3")
  obtain snk m5 where g5: "get_mapping (sink d) m4 = (snk, m5)"
    by (cases "get_mapping (sink d) m4")
  have res: "DFA_map_get_mapping d
     = (\<lparr>q0 = start, qfs = finals, states = sts, transitions = trs, sink = Some snk\<rparr>, m5)"
    by (simp add: DFA_map_get_mapping_def g1 g2 g3 g4 g5)
  from get_mapping_ok[OF ok0 g1] have ok1: "mapper_ok m1" by simp
  from map_states_ok[OF ok1 g2] have ok2: "mapper_ok m2"
    and f2: "finals = map (\<lambda>s. the (mapping m2 (Some s))) (qfs d)"
    and d2: "Some ` set (qfs d) \<subseteq> dom (mapping m2)" by auto
  from map_states_ok[OF ok2 g3] have ok3: "mapper_ok m3" and le3: "mapping m2 \<subseteq>\<^sub>m mapping m3"
    and f3: "sts = map (\<lambda>s. the (mapping m3 (Some s))) (states d)"
    and d3: "Some ` set (states d) \<subseteq> dom (mapping m3)" by auto
  from map_transitions_ok[OF ok3 g4] have ok4: "mapper_ok m4" and le4: "mapping m3 \<subseteq>\<^sub>m mapping m4"
    by auto
  from get_mapping_ok[OF ok4 g5] have ok5: "mapper_ok m5" and le5: "mapping m4 \<subseteq>\<^sub>m mapping m5"
    by auto
  have le25: "mapping m2 \<subseteq>\<^sub>m mapping m5" and le35: "mapping m3 \<subseteq>\<^sub>m mapping m5"
    using le3 le4 le5 by (blast intro: map_le_trans)+
  have k2: "\<And>s. s \<in> set (qfs d) \<Longrightarrow> mapping m2 (Some s) = mapping m5 (Some s)"
    using d2 le25 by (auto simp: map_le_def)
  have k3: "\<And>s. s \<in> set (states d) \<Longrightarrow> mapping m3 (Some s) = mapping m5 (Some s)"
    using d3 le35 by (auto simp: map_le_def)
  have gn: "group_number d = (\<lambda>s. the (mapping m5 (Some s)))"
    by (simp add: group_number_def res fun_eq_iff)
  have "sts = map (group_number d) (states d)" unfolding f3 gn using k3 by simp
  moreover have "finals = map (group_number d) (qfs d)" unfolding f2 gn using k2 by simp
  moreover have "inj_on (group_number d) (set (states d) \<union> set (qfs d))"
  proof (rule inj_onI)
    fix a b
    assume a: "a \<in> set (states d) \<union> set (qfs d)" and b: "b \<in> set (states d) \<union> set (qfs d)"
      and e: "group_number d a = group_number d b"
    have da: "Some a \<in> dom (mapping m5)" using a d2 d3 k2 k3 by (auto simp: dom_def)
    have db: "Some b \<in> dom (mapping m5)" using b d2 d3 k2 k3 by (auto simp: dom_def)
    from da db e have "mapping m5 (Some a) = mapping m5 (Some b)" by (auto simp: gn)
    with ok5 da db show "a = b" by (auto simp: mapper_ok_def dest: inj_onD)
  qed
  ultimately show ?thesis by (simp add: res)
qed

lemma set_sink_keeps:
  "states (set_sink dfa al) = states dfa \<and> qfs (set_sink dfa al) = qfs dfa \<and>
   (sink dfa \<noteq> None \<longrightarrow> sink (set_sink dfa al) \<noteq> None)"
  by (simp add: set_sink_def split: option.splits)

lemma add_sink_id: "sink dfa \<noteq> None \<Longrightarrow> add_sink dfa al = dfa"
  by (auto simp: add_sink_def split: option.splits)









section \<open>The sink of the constructed DFA\<close>

text \<open>\<^verbatim>\<open>DFA.map\<close> passes the sink through \<open>get_mapping\<close> like a state, and the sink is
  \<^verbatim>\<open>None\<close> at that point; the mapper gives \<^verbatim>\<open>None\<close> the next free number.  So
  the test \<^verbatim>\<open>dfa.sink is None\<close> that guards the synthesis of a sink never holds, and
  \<open>fromNFA\<close> returns what the search for a sink among the states leaves.\<close>

lemma fromNFA_never_adds_sink:
  "DFA_fromNFA nfa =
     (case subset_construction nfa of
        Inl e \<Rightarrow> Inl e
      | Inr d \<Rightarrow> Inr (set_sink (fst (DFA_map_get_mapping d)) (getAlphabet nfa)))"
proof (cases "subset_construction nfa")
  case (Inl e)
  then show ?thesis by (simp add: DFA_fromNFA_def)
next
  case (Inr d)
  have "sink (fst (DFA_map_get_mapping d)) \<noteq> None"
    using DFA_map_get_mapping_numbers[of d] by simp
  then have "sink (set_sink (fst (DFA_map_get_mapping d)) (getAlphabet nfa)) \<noteq> None"
    using set_sink_keeps[of "fst (DFA_map_get_mapping d)" "getAlphabet nfa"] by simp
  then show ?thesis by (simp add: DFA_fromNFA_def Inr add_sink_id)
qed

text \<open>
  Claim C2 fails on the code.  The DFA of \<^verbatim>\<open>a*\<close> has the two states 0 and 1, both
  final, so no state is a sink; the sink it is returned with is the number 2 that the
  mapper gave to \<^verbatim>\<open>None\<close>, which is not in the list of states and has no transition.
\<close>

theorem star_dfa_sink_is_not_a_state:
  "compile_regex priority Map.empty (py ''a*'')
     = Inr \<lparr>q0 = 0, qfs = [0, 1], states = [0, 1],
            transitions = [(0, py ''a'', 1), (1, py ''a'', 1)], sink = Some 2\<rparr> \<and>
   2 \<notin> set (states \<lparr>q0 = 0::nat, qfs = [0, 1], states = [0, 1],
            transitions = [(0, py ''a'', 1), (1, py ''a'', 1)], sink = Some 2\<rparr>) \<and>
   DFA_next \<lparr>q0 = 0::nat, qfs = [0, 1], states = [0, 1],
            transitions = [(0, py ''a'', 1), (1, py ''a'', 1)], sink = Some 2\<rparr> 2 (py ''a'')
     = None"
  by code_simp

text \<open>The two characters that \<open>literal_char\<close> leaves out although \<open>preprocess\<close> reads
  them as characters: the regex of one space has an empty token for a prenex form and
  does not compile, and the symbol for the empty string compiles to the DFA of the
  empty string.\<close>

lemma space_regex_does_not_compile:
  "compile_regex priority Map.empty (py '' '') = Inl AttributeError"
  by code_simp

lemma epsilon_regex_accepts_empty_string:
  "\<exists>dfa. compile_regex priority Map.empty [epsilon] = Inr dfa \<and>
         accepts dfa [] \<and> \<not> accepts dfa [epsilon]"
proof -
  have "compile_regex priority Map.empty [epsilon]
          = Inr \<lparr>q0 = 0, qfs = [0], states = [0], transitions = [], sink = Some 1\<rparr>"
    by code_simp
  then show ?thesis by (simp add: accepts_def isFinal_def DFA_next_def)
qed


section \<open>Lex.py: the constructor\<close>

text \<open>A dictionary is a list of pairs with distinct keys, in insertion order.
  \<^verbatim>\<open>d[k] = v\<close> replaces the value of a key in place and adds a new key at the end.\<close>

fun dict_set :: "'k \<Rightarrow> 'v \<Rightarrow> ('k \<times> 'v) list \<Rightarrow> ('k \<times> 'v) list" where
  "dict_set k v [] = [(k, v)]"
| "dict_set k v ((k', v') # rest) =
     (if k' = k then (k, v) # rest else (k', v') # dict_set k v rest)"

definition escape_regex :: "pystr \<Rightarrow> pystr" where
  "escape_regex regex =
     str_replace [92, cp CHR ''+''] [39, cp CHR ''+'', 39]
       (str_replace [92, cp CHR ''*''] [39, cp CHR ''*'', 39]
          (str_replace [92, cp CHR '')''] [39, cp CHR '')'', 39]
             (str_replace [92, cp CHR ''(''] [39, cp CHR ''('', 39] regex)))"

fun rewrite_loop :: "(pystr \<times> pystr) list \<Rightarrow> (pystr \<times> pystr) list \<Rightarrow> (pystr \<times> pystr) list" where
  "rewrite_loop [] configurations = configurations"
| "rewrite_loop ((token, regex) # items) configurations =
     rewrite_loop items (dict_set token (escape_regex regex) configurations)"

text \<open>\<^verbatim>\<open>dfa.map(lambda x: x + counter)\<close>; the function also meets the sink, and adding a
  number to \<^verbatim>\<open>None\<close> is a \<^verbatim>\<open>TypeError\<close>.\<close>

definition DFA_map_add :: "nat \<Rightarrow> nat DFA \<Rightarrow> py_error + nat DFA" where
  "DFA_map_add n dfa =
     (case sink dfa of
        None \<Rightarrow> Inl TypeError
      | Some s \<Rightarrow>
          Inr \<lparr>q0 = q0 dfa + n, qfs = map (\<lambda>s. s + n) (qfs dfa),
               states = map (\<lambda>s. s + n) (states dfa),
               transitions = map (\<lambda>(a, c, b). (a + n, c, b + n)) (transitions dfa),
               sink = Some (s + n)\<rparr>)"

fun build_dfas ::
  "(Operator \<Rightarrow> int) \<Rightarrow> (nat \<rightharpoonup> nat set) \<Rightarrow> nat \<Rightarrow> (pystr \<times> pystr) list
     \<Rightarrow> (pystr \<times> nat DFA) list \<Rightarrow> py_error + (pystr \<times> nat DFA) list" where
  "build_dfas prio shared n [] dfas = Inr dfas"
| "build_dfas prio shared n ((token, regex) # items) dfas =
     (case toPrenex prio regex of
        Inl e \<Rightarrow> Inl e
      | Inr prenex \<Rightarrow>
     (case NFA_fromPrenex shared prenex of
        Inl e \<Rightarrow> Inl e
      | Inr nfa \<Rightarrow>
     (case DFA_fromNFA nfa of
        Inl e \<Rightarrow> Inl e
      | Inr dfa \<Rightarrow>
     (case DFA_map_add n dfa of
        Inl e \<Rightarrow> Inl e
      | Inr dfa' \<Rightarrow>
          build_dfas prio (epsilonClosures nfa) (n + length (nfa_states nfa)) items
            (dict_set token dfa' dfas)))))"

text \<open>\<^verbatim>\<open>Lexer.__init__\<close>.  The first component is the dictionary of the caller when the
  constructor is left, by return or by an exception of the second loop; the second is
  the dictionary \<^verbatim>\<open>self.dfas\<close>, or the exception.\<close>

definition Lexer_init ::
  "(Operator \<Rightarrow> int) \<Rightarrow> (nat \<rightharpoonup> nat set) \<Rightarrow> (pystr \<times> pystr) list
     \<Rightarrow> (pystr \<times> pystr) list \<times> (py_error + (pystr \<times> nat DFA) list)" where
  "Lexer_init prio shared configurations =
     (let configurations' = rewrite_loop configurations configurations
      in (configurations', build_dfas prio shared 0 configurations' []))"

definition has_escape :: "pystr \<Rightarrow> bool" where
  "has_escape regex =
     (str_in [92, cp CHR ''(''] regex \<or> str_in [92, cp CHR '')''] regex \<or>
      str_in [92, cp CHR ''*''] regex \<or> str_in [92, cp CHR ''+''] regex)"

lemma dict_set_map:
  "k \<notin> set (map fst pre) \<Longrightarrow>
     dict_set k v (pre @ (k, w) # post) = pre @ (k, v) # post"
  by (induction pre) auto

lemma rewrite_loop_map:
  "distinct (map fst (seen @ items)) \<Longrightarrow>
     rewrite_loop items (map (\<lambda>(t, r). (t, escape_regex r)) seen @ items)
       = map (\<lambda>(t, r). (t, escape_regex r)) (seen @ items)"
proof (induction items arbitrary: seen)
  case Nil
  then show ?case by simp
next
  case (Cons p items)
  obtain token regex where p: "p = (token, regex)" by (cases p)
  have "token \<notin> set (map fst (map (\<lambda>(t, r). (t, escape_regex r)) seen))"
    using Cons.prems by (force simp: p)
  then have "dict_set token (escape_regex regex)
          (map (\<lambda>(t, r). (t, escape_regex r)) seen @ (token, regex) # items)
        = map (\<lambda>(t, r). (t, escape_regex r)) (seen @ [(token, regex)]) @ items"
    by (simp add: dict_set_map)
  moreover have "distinct (map fst ((seen @ [(token, regex)]) @ items))"
    using Cons.prems by (simp add: p)
  ultimately show ?case
    using Cons.IH[of "seen @ [(token, regex)]"] by (simp add: p)
qed

lemma str_replace_absent:
  "old \<noteq> [] \<Longrightarrow> \<not> sublist old s \<Longrightarrow> str_replace old new s = s"
proof (induction s)
  case Nil
  then show ?case by simp
next
  case (Cons c cs)
  then have "\<not> prefix old (c # cs)" "\<not> sublist old cs"
    by (auto simp: sublist_Cons_right)
  with Cons show ?case by simp
qed

lemma str_replace_length:
  "old \<noteq> [] \<Longrightarrow> length old \<le> length new \<Longrightarrow>
     length s \<le> length (str_replace old new s)"
proof (induction old new s rule: str_replace.induct)
  case (1 old new)
  then show ?case by simp
next
  case (2 old new c cs)
  show ?case
  proof (cases "prefix old (c # cs)")
    case True
    then have "length old \<le> length (c # cs)" by (rule prefix_length_le)
    moreover have "length (drop (length old) (c # cs))
                     \<le> length (str_replace old new (drop (length old) (c # cs)))"
      using "2.IH"(2) "2.prems" True by simp
    ultimately show ?thesis using True "2.prems" by simp
  next
    case False
    with "2.IH"(3) "2.prems" show ?thesis by simp
  qed
qed

lemma str_replace_longer:
  "old \<noteq> [] \<Longrightarrow> length old < length new \<Longrightarrow> sublist old s \<Longrightarrow>
     length s < length (str_replace old new s)"
proof (induction old new s rule: str_replace.induct)
  case (1 old new)
  then show ?case by simp
next
  case (2 old new c cs)
  show ?case
  proof (cases "prefix old (c # cs)")
    case True
    then have "length old \<le> length (c # cs)" by (rule prefix_length_le)
    moreover have "length (drop (length old) (c # cs))
                     \<le> length (str_replace old new (drop (length old) (c # cs)))"
      using "2.prems" by (intro str_replace_length) simp_all
    ultimately show ?thesis using True "2.prems" by simp
  next
    case False
    with "2.prems" have "sublist old cs" by (simp add: sublist_Cons_right)
    with "2.IH"(3) "2.prems" False show ?thesis by simp
  qed
qed

lemma escape_regex_changes_iff: "escape_regex regex \<noteq> regex \<longleftrightarrow> has_escape regex"
proof -
  let ?r1 = "str_replace [92, cp CHR ''(''] [39, cp CHR ''('', 39]"
  let ?r2 = "str_replace [92, cp CHR '')''] [39, cp CHR '')'', 39]"
  let ?r3 = "str_replace [92, cp CHR ''*''] [39, cp CHR ''*'', 39]"
  let ?r4 = "str_replace [92, cp CHR ''+''] [39, cp CHR ''+'', 39]"
  have e: "escape_regex regex = ?r4 (?r3 (?r2 (?r1 regex)))" by (simp add: escape_regex_def)
  have l1: "\<And>s. length s \<le> length (?r1 s)" by (rule str_replace_length) simp_all
  have l2: "\<And>s. length s \<le> length (?r2 s)" by (rule str_replace_length) simp_all
  have l3: "\<And>s. length s \<le> length (?r3 s)" by (rule str_replace_length) simp_all
  have l4: "\<And>s. length s \<le> length (?r4 s)" by (rule str_replace_length) simp_all
  show ?thesis
  proof (cases "sublist [92, cp CHR ''(''] regex")
    case True
    then have "length regex < length (?r1 regex)" by (intro str_replace_longer) simp_all
    also have "\<dots> \<le> length (?r4 (?r3 (?r2 (?r1 regex))))"
      using l2 l3 l4 by (meson order_trans)
    finally have "escape_regex regex \<noteq> regex" unfolding e by auto
    with True show ?thesis by (simp add: has_escape_def str_in_def)
  next
    case n1: False
    then have s1: "?r1 regex = regex" by (intro str_replace_absent) simp_all
    show ?thesis
    proof (cases "sublist [92, cp CHR '')''] regex")
      case True
      then have "length regex < length (?r2 regex)" by (intro str_replace_longer) simp_all
      also have "\<dots> \<le> length (?r4 (?r3 (?r2 regex)))"
        using l3 l4 by (meson order_trans)
      finally have "escape_regex regex \<noteq> regex" unfolding e s1 by auto
      with True show ?thesis by (simp add: has_escape_def str_in_def)
    next
      case n2: False
      then have s2: "?r2 regex = regex" by (intro str_replace_absent) simp_all
      show ?thesis
      proof (cases "sublist [92, cp CHR ''*''] regex")
        case True
        then have "length regex < length (?r3 regex)" by (intro str_replace_longer) simp_all
        also have "\<dots> \<le> length (?r4 (?r3 regex))" using l4 by simp
        finally have "escape_regex regex \<noteq> regex" unfolding e s1 s2 by auto
        with True show ?thesis by (simp add: has_escape_def str_in_def)
      next
        case n3: False
        then have s3: "?r3 regex = regex" by (intro str_replace_absent) simp_all
        show ?thesis
        proof (cases "sublist [92, cp CHR ''+''] regex")
          case True
          then have "length regex < length (?r4 regex)" by (intro str_replace_longer) simp_all
          then have "escape_regex regex \<noteq> regex" unfolding e s1 s2 s3 by auto
          with True show ?thesis by (simp add: has_escape_def str_in_def)
        next
          case n4: False
          then have "?r4 regex = regex" by (intro str_replace_absent) simp_all
          then have "escape_regex regex = regex" unfolding e s1 s2 s3 .
          with n1 n2 n3 n4 show ?thesis by (simp add: has_escape_def str_in_def)
        qed
      qed
    qed
  qed
qed

text \<open>
  Claim C9.  The constructor writes into the dictionary it was given: when it is left,
  the dictionary of the caller has the same keys in the same order, and under each key
  the regex with the four escaped operators rewritten as quoted literals.  The entry is
  a different string from the one the caller put there exactly when the regex contained
  one of the four escape sequences.
\<close>

theorem Lexer_init_rewrites_configurations:
  assumes "distinct (map fst configurations)"
  shows "fst (Lexer_init prio shared configurations)
           = map (\<lambda>(token, regex). (token, escape_regex regex)) configurations \<and>
         map fst (fst (Lexer_init prio shared configurations)) = map fst configurations \<and>
         (escape_regex regex \<noteq> regex \<longleftrightarrow> has_escape regex)"
proof -
  have "fst (Lexer_init prio shared configurations)
           = map (\<lambda>(token, regex). (token, escape_regex regex)) configurations"
    using rewrite_loop_map[of "[]" configurations] assms by (simp add: Lexer_init_def Let_def)
  moreover have "map fst (map (\<lambda>(token, regex). (token, escape_regex regex)) configurations)
                   = map fst configurations"
    by (induction configurations) auto
  ultimately show ?thesis using escape_regex_changes_iff by simp
qed

theorem Lexer_init_rewrites_configurations_witness:
  "distinct (map fst [(py ''LP'', [92, cp CHR ''('']), (py ''A'', py ''a'')]) \<and>
   fst (Lexer_init priority Map.empty [(py ''LP'', [92, cp CHR ''('']), (py ''A'', py ''a'')])
     = [(py ''LP'', [39, cp CHR ''('', 39]), (py ''A'', py ''a'')] \<and>
   escape_regex [92, cp CHR ''(''] \<noteq> [92, cp CHR ''(''] \<and>
   escape_regex (py ''a'') = py ''a''"
  using Lexer_init_rewrites_configurations
          [of "[(py ''LP'', [92, cp CHR ''('']), (py ''A'', py ''a'')]" priority Map.empty
              "[92, cp CHR ''('']"]
        Lexer_init_rewrites_configurations
          [of "[(py ''LP'', [92, cp CHR ''('']), (py ''A'', py ''a'')]" priority Map.empty
              "py ''a''"]
  by (simp add: escape_regex_def has_escape_def str_in_def sublist_code)


section \<open>Lex.py: the lexer\<close>

fun simulate :: "nat DFA \<Rightarrow> nat \<Rightarrow> nat \<Rightarrow> pystr \<Rightarrow> nat list \<times> nat \<times> bool" where
  "simulate dfa curr_state curr_idx [] = ([], curr_idx, False)"
| "simulate dfa curr_state curr_idx (curr_char # rest) =
     (case DFA_next dfa curr_state [curr_char] of
        None \<Rightarrow> ([], curr_idx, True)
      | Some s \<Rightarrow>
          (let hit = (if s \<in> set (qfs dfa) then [curr_idx] else [])
           in if sink dfa = Some s then (hit, curr_idx, True)
              else (case simulate dfa s (curr_idx + 1) rest of
                      (ms, stop, sunk) \<Rightarrow> (hit @ ms, stop, sunk))))"

type_synonym matches_dict = "(pystr \<times> nat list) list"

fun run_dfas ::
  "(pystr \<times> nat DFA) list \<Rightarrow> nat \<Rightarrow> pystr \<Rightarrow> nat \<Rightarrow> matches_dict \<times> nat \<times> nat
     \<Rightarrow> matches_dict \<times> nat \<times> nat" where
  "run_dfas [] n word start_idx st = st"
| "run_dfas ((token, dfa) # rest) n word start_idx (matches, num_sinks, failed_curr_idx) =
     (case simulate dfa (q0 dfa) start_idx (drop start_idx word) of
        (ms, curr_idx, sunk) \<Rightarrow>
          (let matches' = (if ms = [] then matches else matches @ [(token, ms)]);
               num_sinks' = (if sunk then num_sinks + 1 else num_sinks);
               failed' = max failed_curr_idx curr_idx
           in if num_sinks' = n then (matches', num_sinks', failed')
              else run_dfas rest n word start_idx (matches', num_sinks', failed')))"

definition getLongestMatch :: "matches_dict \<Rightarrow> (pystr option \<times> nat) option" where
  "getLongestMatch matchesDict =
     (if length matchesDict = 0 then None
      else Some (fold (\<lambda>(token, matches) acc.
                   fold (\<lambda>match (longestMatchToken, longestMatchIdx).
                           if match \<ge> longestMatchIdx then (Some token, match)
                           else (longestMatchToken, longestMatchIdx)) matches acc)
                 (rev matchesDict) (None, 0)))"

fun count_lines :: "pystr \<Rightarrow> nat \<Rightarrow> nat \<Rightarrow> nat \<Rightarrow> nat" where
  "count_lines [] i failed_curr_idx line = line"
| "count_lines (char # rest) i failed_curr_idx line =
     (let line' = (if char = 10 then line + 1 else line)
      in if i = failed_curr_idx then line' else count_lines rest (i + 1) failed_curr_idx line')"

fun rfind :: "pychar \<Rightarrow> pystr \<Rightarrow> int" where
  "rfind c [] = -1"
| "rfind c (x # xs) =
     (let r = rfind c xs in if r \<ge> 0 then r + 1 else if x = c then 0 else -1)"

definition str_int :: "int \<Rightarrow> pystr" where
  "str_int i = (if i < 0 then cp CHR ''-'' # str_nat (nat (- i)) else str_nat (nat i))"

definition error_message :: "pystr \<Rightarrow> nat \<Rightarrow> pystr" where
  "error_message word failed_curr_idx =
     (if count_list word 10 = 0 then
        (if failed_curr_idx = length word
         then py ''No viable alternative at character EOF, line 0''
         else py ''No viable alternative at character '' @ str_nat failed_curr_idx
                @ py '', line 0'')
      else
        (let line = count_lines word 0 failed_curr_idx 0 in
         if failed_curr_idx = length word
         then py ''No viable alternative at character EOF, line '' @ str_nat line
         else py ''No viable alternative at character ''
                @ str_int (int failed_curr_idx - rfind 10 (take failed_curr_idx word))
                @ py '', line '' @ str_nat line))"

lemma simulate_bounds:
  "simulate dfa s i w = (ms, stop, sunk) \<Longrightarrow>
     (\<forall>m \<in> set ms. i \<le> m \<and> m < i + length w) \<and> i \<le> stop \<and> stop \<le> i + length w"
proof (induction dfa s i w arbitrary: ms stop sunk rule: simulate.induct)
  case (1 dfa curr_state curr_idx)
  then show ?case by simp
next
  case (2 dfa curr_state curr_idx curr_char rest)
  show ?case
  proof (cases "DFA_next dfa curr_state [curr_char]")
    case None
    with "2.prems" show ?thesis by auto
  next
    case (Some t)
    show ?thesis
    proof (cases "sink dfa = Some t")
      case True
      with Some "2.prems" show ?thesis by (auto split: if_splits)
    next
      case False
      obtain ms' stop' sunk' where r: "simulate dfa t (curr_idx + 1) rest = (ms', stop', sunk')"
        by (cases "simulate dfa t (curr_idx + 1) rest") auto
      have ih: "(\<forall>m \<in> set ms'. curr_idx + 1 \<le> m \<and> m < curr_idx + 1 + length rest) \<and>
                curr_idx + 1 \<le> stop' \<and> stop' \<le> curr_idx + 1 + length rest"
        using "2.IH"[OF Some refl False r] .
      from "2.prems" Some False r have "ms = (if t \<in> set (qfs dfa) then [curr_idx] else []) @ ms'"
        and "stop = stop'" by auto
      with ih show ?thesis by (auto split: if_splits)
    qed
  qed
qed


definition candidates :: "(pystr \<times> nat DFA) list \<Rightarrow> pystr \<Rightarrow> nat \<Rightarrow> matches_dict" where
  "candidates dfas word start_idx =
     map (\<lambda>(token, dfa). (token, fst (simulate dfa (q0 dfa) start_idx (drop start_idx word)))) dfas"

definition stop_indices :: "(pystr \<times> nat DFA) list \<Rightarrow> pystr \<Rightarrow> nat \<Rightarrow> nat list" where
  "stop_indices dfas word start_idx =
     map (\<lambda>(token, dfa). fst (snd (simulate dfa (q0 dfa) start_idx (drop start_idx word)))) dfas"

definition all_matches :: "matches_dict \<Rightarrow> nat list" where
  "all_matches d = concat (map snd d)"

lemma Max_set_Cons: "ms \<noteq> [] \<Longrightarrow> Max (set (m # ms)) = max m (Max (set ms))"
  by simp

lemma inner_fold:
  "fold (\<lambda>match (tok, idx). if match \<ge> idx then (Some token, match) else (tok, idx)) ms (tok0, i0::nat)
     = (if \<exists>m \<in> set ms. i0 \<le> m then (Some token, Max (set ms)) else (tok0, i0))"
proof (induction ms arbitrary: tok0 i0)
  case Nil
  then show ?case by simp
next
  case (Cons m ms)
  show ?case
  proof (cases "i0 \<le> m")
    case True
    show ?thesis
    proof (cases "\<exists>m' \<in> set ms. m \<le> m'")
      case True
      then obtain m' where m': "m' \<in> set ms" "m \<le> m'" by blast
      then have "m \<le> Max (set ms)" by (meson List.finite_set Max_ge order_trans)
      moreover from m' have "ms \<noteq> []" by auto
      ultimately have "Max (set (m # ms)) = Max (set ms)"
        by (simp add: max_def)
      with True \<open>i0 \<le> m\<close> Cons.IH[of "Some token" m] show ?thesis by auto
    next
      case False
      then have "Max (set (m # ms)) = m"
      proof (cases "ms = []")
        case True
        then show ?thesis by simp
      next
        case ne: False
        then have "Max (set ms) \<in> set ms" by (intro Max_in) auto
        with False have "Max (set ms) < m" by (auto simp: not_le)
        then have "max m (Max (set ms)) = m" by (intro max.absorb1 less_imp_le)
        then show ?thesis by (simp only: Max_set_Cons[OF ne])
      qed
      with False \<open>i0 \<le> m\<close> Cons.IH[of "Some token" m] show ?thesis by auto
    qed
  next
    case False
    show ?thesis
    proof (cases "\<exists>m' \<in> set ms. i0 \<le> m'")
      case True
      then obtain m' where m': "m' \<in> set ms" "i0 \<le> m'" by blast
      then have "i0 \<le> Max (set ms)" by (meson List.finite_set Max_ge order_trans)
      with False have "m \<le> Max (set ms)" by linarith
      moreover from m' have "ms \<noteq> []" by auto
      ultimately have "Max (set (m # ms)) = Max (set ms)"
        by (simp add: max_def)
      with True False Cons.IH[of tok0 i0] show ?thesis by auto
    next
      case False2: False
      with False Cons.IH[of tok0 i0] show ?thesis by auto
    qed
  qed
qed


definition longest_endpoint :: "matches_dict \<Rightarrow> nat" where
  "longest_endpoint d = Max (set (all_matches d))"

definition earliest_category :: "matches_dict \<Rightarrow> nat \<Rightarrow> pystr option" where
  "earliest_category d idx = map_option fst (find (\<lambda>(token, ms). idx \<in> set ms) d)"

lemma Max_set_append:
  "xs \<noteq> [] \<Longrightarrow> ys \<noteq> [] \<Longrightarrow> Max (set (xs @ ys)) = max (Max (set xs)) (Max (set ys))"
  by (simp add: Max_Un)

lemma outer_foldr:
  "foldr (\<lambda>(token, matches) acc.
            fold (\<lambda>match (tok, idx). if match \<ge> idx then (Some token, match) else (tok, idx))
              matches acc) d (None, 0::nat)
     = (if all_matches d = [] then (None, 0)
        else (earliest_category d (longest_endpoint d), longest_endpoint d))"
proof (induction d)
  case Nil
  then show ?case by (simp add: all_matches_def)
next
  case (Cons p d)
  obtain token ms where p: "p = (token, ms)" by (cases p)
  let ?R = "if all_matches d = [] then (None, 0)
        else (earliest_category d (longest_endpoint d), longest_endpoint d)"
  have step: "foldr (\<lambda>(token, matches) acc.
            fold (\<lambda>match (tok, idx). if match \<ge> idx then (Some token, match) else (tok, idx))
              matches acc) (p # d) (None, 0::nat)
     = (if \<exists>m \<in> set ms. snd ?R \<le> m then (Some token, Max (set ms)) else ?R)"
    using inner_fold[of token ms "fst ?R" "snd ?R"] by (simp add: p Cons.IH)
  have am: "all_matches (p # d) = ms @ all_matches d" by (simp add: all_matches_def p)
  show ?case
  proof (cases "ms = []")
    case True
    have "all_matches (p # d) = all_matches d" by (simp add: am True)
    moreover have "longest_endpoint (p # d) = longest_endpoint d"
      by (simp add: longest_endpoint_def am True)
    moreover have "\<And>i. earliest_category (p # d) i = earliest_category d i"
      by (simp add: earliest_category_def p True)
    ultimately show ?thesis
      unfolding step by (simp add: True)
  next
    case ne: False
    then have inms: "Max (set ms) \<in> set ms" by (intro Max_in) auto
    show ?thesis
    proof (cases "all_matches d = []")
      case True
      have "longest_endpoint (p # d) = Max (set ms)"
        by (simp add: longest_endpoint_def am True)
      moreover have "earliest_category (p # d) (Max (set ms)) = Some token"
        using inms by (simp add: earliest_category_def p)
      moreover have "all_matches (p # d) \<noteq> []" by (simp add: am ne)
      moreover have "\<exists>m \<in> set ms. 0 \<le> m" using inms by blast
      ultimately show ?thesis
        unfolding step by (simp add: True)
    next
      case ne2: False
      have mx: "longest_endpoint (p # d) = max (Max (set ms)) (longest_endpoint d)"
        using ne ne2 by (simp add: longest_endpoint_def am Max_Un)
      show ?thesis
      proof (cases "\<exists>m \<in> set ms. longest_endpoint d \<le> m")
        case True
        then obtain m where "m \<in> set ms" "longest_endpoint d \<le> m" by blast
        then have "longest_endpoint d \<le> Max (set ms)"
          by (meson List.finite_set Max_ge order_trans)
        then have "longest_endpoint (p # d) = Max (set ms)" by (simp add: mx)
        moreover have "earliest_category (p # d) (Max (set ms)) = Some token"
          using inms by (simp add: earliest_category_def p)
        moreover have "all_matches (p # d) \<noteq> []" by (simp add: am ne)
        ultimately show ?thesis
          unfolding step using True by (simp add: ne2)
      next
        case False
        then have lt: "\<forall>m \<in> set ms. m < longest_endpoint d" by (auto simp: not_le)
        with inms have "Max (set ms) < longest_endpoint d" by blast
        then have eq: "longest_endpoint (p # d) = longest_endpoint d" by (simp add: mx)
        from lt have "longest_endpoint d \<notin> set ms" by auto
        then have "earliest_category (p # d) (longest_endpoint d)
                     = earliest_category d (longest_endpoint d)"
          by (simp add: earliest_category_def p)
        moreover have "all_matches (p # d) \<noteq> []" by (simp add: am ne)
        ultimately show ?thesis
          unfolding step using False by (simp add: ne2 eq)
      qed
    qed
  qed
qed

lemma getLongestMatch_longest_earliest:
  "all_matches d \<noteq> [] \<Longrightarrow>
     getLongestMatch d = Some (earliest_category d (longest_endpoint d), longest_endpoint d)"
proof -
  assume ne: "all_matches d \<noteq> []"
  then have "d \<noteq> []" by (auto simp: all_matches_def)
  with ne show ?thesis
    by (simp add: getLongestMatch_def foldr_conv_fold[symmetric] outer_foldr)
qed

lemma earliest_category_defined:
  "all_matches d \<noteq> [] \<Longrightarrow> \<exists>token. earliest_category d (longest_endpoint d) = Some token"
proof -
  assume ne: "all_matches d \<noteq> []"
  then have "longest_endpoint d \<in> set (all_matches d)"
    unfolding longest_endpoint_def by (intro Max_in) auto
  then obtain t ms where "(t, ms) \<in> set d" "longest_endpoint d \<in> set ms"
    by (auto simp: all_matches_def)
  then have "find (\<lambda>(token, ms). longest_endpoint d \<in> set ms) d \<noteq> None"
    by (auto simp: find_None_iff)
  then show ?thesis by (auto simp: earliest_category_def)
qed

lemma filter_nonempty_Nil:
  "all_matches d = [] \<Longrightarrow> filter (\<lambda>(t, ms). ms \<noteq> []) d = []"
  by (induction d) (auto simp: all_matches_def)

lemma all_matches_filter:
  "all_matches (filter (\<lambda>(t, ms). ms \<noteq> []) d) = all_matches d"
  by (induction d) (auto simp: all_matches_def)

lemma earliest_category_filter:
  "earliest_category (filter (\<lambda>(t, ms). ms \<noteq> []) d) idx = earliest_category d idx"
  by (induction d) (auto simp: earliest_category_def)

lemma run_dfas_result:
  "num_sinks + length dfas \<le> n \<Longrightarrow>
     fst (run_dfas dfas n word start_idx (matches, num_sinks, failed))
       = matches @ filter (\<lambda>(t, ms). ms \<noteq> []) (candidates dfas word start_idx) \<and>
     snd (snd (run_dfas dfas n word start_idx (matches, num_sinks, failed)))
       = fold max (stop_indices dfas word start_idx) failed"
proof (induction dfas arbitrary: matches num_sinks failed)
  case Nil
  then show ?case by (simp add: candidates_def stop_indices_def)
next
  case (Cons p dfas)
  obtain token dfa where p: "p = (token, dfa)" by (cases p)
  obtain ms curr_idx sunk where
    sim: "simulate dfa (q0 dfa) start_idx (drop start_idx word) = (ms, curr_idx, sunk)"
    by (cases "simulate dfa (q0 dfa) start_idx (drop start_idx word)") auto
  let ?matches = "if ms = [] then matches else matches @ [(token, ms)]"
  let ?sinks = "if sunk then num_sinks + 1 else num_sinks"
  show ?case
  proof (cases "?sinks = n")
    case True
    with Cons.prems have "dfas = []" by (auto split: if_splits)
    with True show ?thesis
      by (simp add: p sim candidates_def stop_indices_def Let_def max.commute)
  next
    case False
    have "?sinks + length dfas \<le> n" using Cons.prems by (auto split: if_splits)
    from Cons.IH[OF this, of ?matches "max failed curr_idx"] False show ?thesis
      by (simp add: p sim candidates_def stop_indices_def Let_def max.commute)
  qed
qed

lemma candidates_bounds:
  "m \<in> set (all_matches (candidates dfas word start_idx)) \<Longrightarrow> start_idx \<le> m"
proof -
  assume "m \<in> set (all_matches (candidates dfas word start_idx))"
  then obtain token dfa where
    "m \<in> set (fst (simulate dfa (q0 dfa) start_idx (drop start_idx word)))"
    by (auto simp: all_matches_def candidates_def)
  then show ?thesis
    using simulate_bounds[of dfa "q0 dfa" start_idx "drop start_idx word"]
    by (cases "simulate dfa (q0 dfa) start_idx (drop start_idx word)") auto
qed

lemma longest_after_start:
  assumes "getLongestMatch (fst (run_dfas dfas (length dfas) word start_idx ([], 0, 0)))
             = Some (tok, idx)"
  shows "start_idx \<le> idx"
proof -
  let ?c = "candidates dfas word start_idx"
  let ?d = "filter (\<lambda>(t, ms). ms \<noteq> []) ?c"
  have d: "fst (run_dfas dfas (length dfas) word start_idx ([], 0, 0)) = ?d"
    using run_dfas_result[of 0 dfas "length dfas" word start_idx "[]" 0] by simp
  show ?thesis
  proof (cases "all_matches ?c = []")
    case True
    then have "?d = []" by (rule filter_nonempty_Nil)
    with assms d show ?thesis by (simp add: getLongestMatch_def)
  next
    case False
    then have "getLongestMatch ?d = Some (earliest_category ?d (longest_endpoint ?d), longest_endpoint ?d)"
      by (intro getLongestMatch_longest_earliest) (simp add: all_matches_filter)
    with assms d have "idx = longest_endpoint ?c"
      by (simp add: longest_endpoint_def all_matches_filter)
    moreover have "longest_endpoint ?c \<in> set (all_matches ?c)"
      unfolding longest_endpoint_def using False by (intro Max_in) auto
    ultimately show ?thesis using candidates_bounds by blast
  qed
qed

lemma lex_loop_progress:
  assumes "start_idx < length word"
    and "(x, y) = run_dfas dfas (length dfas) word start_idx ([], 0, 0)"
    and "getLongestMatch x = Some x2" and "(xb, yb) = x2"
  shows "length word - Suc yb < length word - start_idx"
proof -
  from assms(2) have "x = fst (run_dfas dfas (length dfas) word start_idx ([], 0, 0))"
    by (metis fst_conv)
  with assms(3,4) have "start_idx \<le> yb"
    using longest_after_start[of dfas word start_idx xb yb] by simp
  with assms(1) show ?thesis by simp
qed

function lex_loop ::
  "(pystr \<times> nat DFA) list \<Rightarrow> pystr \<Rightarrow> nat \<Rightarrow> (pystr option \<times> pystr) list
     \<Rightarrow> pystr + (pystr option \<times> pystr) list" where
  "lex_loop dfas word start_idx output =
     (if start_idx < length word then
        (case run_dfas dfas (length dfas) word start_idx ([], 0, 0) of
           (matches, num_sinks, failed_curr_idx) \<Rightarrow>
             (case getLongestMatch matches of
                None \<Rightarrow> Inl (error_message word failed_curr_idx)
              | Some (longestToken, longestIdx) \<Rightarrow>
                  lex_loop dfas word (longestIdx + 1)
                    (output @ [(longestToken, drop start_idx (take (longestIdx + 1) word))])))
      else Inr output)"
  by pat_completeness auto
termination
  apply (relation "measure (\<lambda>(dfas, word, start_idx, out). length word - start_idx)")
   apply simp
  apply (simp add: lex_loop_progress)
  done

declare lex_loop.simps [simp del]

definition Lexer_lex :: "(pystr \<times> nat DFA) list \<Rightarrow> pystr \<Rightarrow> pystr + (pystr option \<times> pystr) list" where
  "Lexer_lex dfas word = lex_loop dfas word 0 []"


definition furthest_index :: "(pystr \<times> nat DFA) list \<Rightarrow> pystr \<Rightarrow> nat \<Rightarrow> nat" where
  "furthest_index dfas word start_idx = Max (set (0 # stop_indices dfas word start_idx))"

definition line_of :: "pystr \<Rightarrow> nat \<Rightarrow> nat" where
  "line_of word idx = count_list (take (Suc idx) word) 10"

definition column_of :: "pystr \<Rightarrow> nat \<Rightarrow> nat" where
  "column_of word idx = Suc (length (takeWhile (\<lambda>c. c \<noteq> 10) (rev (take idx word))))"

definition spec_error_message :: "pystr \<Rightarrow> nat \<Rightarrow> pystr" where
  "spec_error_message word idx =
     py ''No viable alternative at character ''
       @ (if idx = length word then py ''EOF'' else str_nat (column_of word idx))
       @ py '', line '' @ str_nat (line_of word idx)"

lemma fold_max_Max: "fold max xs (a::nat) = Max (set (a # xs))"
proof (induction xs arbitrary: a)
  case Nil
  then show ?case by simp
next
  case (Cons x xs)
  have "Max (set (max x a # xs)) = Max (set (a # x # xs))"
  proof (cases "xs = []")
    case True
    then show ?thesis by (simp add: max.commute)
  next
    case False
    then show ?thesis by (simp add: max.assoc max.commute max.left_commute)
  qed
  with Cons.IH[of "max x a"] show ?case by simp
qed

lemma count_lines_count:
  "i \<le> failed \<Longrightarrow>
     count_lines w i failed line = line + count_list (take (Suc (failed - i)) w) 10"
proof (induction w arbitrary: i line)
  case Nil
  then show ?case by simp
next
  case (Cons c w)
  show ?case
  proof (cases "i = failed")
    case True
    then show ?thesis by (simp add: Let_def)
  next
    case False
    with Cons.prems have "Suc i \<le> failed" by simp
    from Cons.IH[OF this] False Cons.prems show ?thesis
      by (simp add: Let_def Suc_diff_Suc le_neq_implies_less)
  qed
qed

lemma rfind_takeWhile:
  "rfind c xs = int (length xs) - 1 - int (length (takeWhile (\<lambda>x. x \<noteq> c) (rev xs)))"
proof (induction xs)
  case Nil
  then show ?case by simp
next
  case (Cons x xs)
  show ?case
  proof (cases "c \<in> set xs")
    case True
    then have "takeWhile (\<lambda>x. x \<noteq> c) (rev xs) \<noteq> rev xs"
      by auto
    then have "length (takeWhile (\<lambda>x. x \<noteq> c) (rev xs)) < length xs"
      by (metis length_rev length_takeWhile_le le_neq_implies_less takeWhile_eq_take take_all order_refl)
    moreover from True have "takeWhile (\<lambda>x. x \<noteq> c) (rev xs @ [x]) = takeWhile (\<lambda>x. x \<noteq> c) (rev xs)"
      by simp
    ultimately show ?thesis using Cons.IH by (simp add: Let_def)
  next
    case False
    then have all: "takeWhile (\<lambda>x. x \<noteq> c) (rev xs) = rev xs"
      by auto
    have "takeWhile (\<lambda>x. x \<noteq> c) (rev xs @ [x]) = rev xs @ (if x \<noteq> c then [x] else [])"
      using False by (subst takeWhile_append2) auto
    then have l2: "length (takeWhile (\<lambda>x. x \<noteq> c) (rev (x # xs)))
                     = length xs + (if x \<noteq> c then 1 else 0)"
      by simp
    from all have l1: "length (takeWhile (\<lambda>x. x \<noteq> c) (rev xs)) = length xs"
      by (metis length_rev)
    have "rfind c xs = -1" using Cons.IH l1 by linarith
    then show ?thesis unfolding l2 by (simp add: Let_def)
  qed
qed

lemma str_int_nat: "0 \<le> i \<Longrightarrow> str_int i = str_nat (nat i)"
  by (simp add: str_int_def)

lemma error_message_spec:
  assumes "failed \<le> length word"
  shows "error_message word failed =
     (if 10 \<in> set word \<or> failed = length word then spec_error_message word failed
      else py ''No viable alternative at character '' @ str_nat failed @ py '', line 0'')"
proof (cases "10 \<in> set word")
  case False
  then have c0: "count_list word 10 = 0" by (simp add: count_list_0_iff)
  have "count_list (take (Suc (length word)) word) 10 = 0" using c0 by simp
  then have "str_nat (line_of word (length word)) = py ''0''"
    by (simp add: line_of_def str_nat.simps)
  with False c0 show ?thesis
    by (simp add: error_message_def spec_error_message_def)
next
  case True
  then have c0: "count_list word 10 \<noteq> 0" by (simp add: count_list_0_iff)
  have line: "count_lines word 0 failed 0 = line_of word failed"
    using count_lines_count[of 0 failed word 0] by (simp add: line_of_def)
  have "int failed - rfind 10 (take failed word) = int (column_of word failed)"
    using assms by (simp add: rfind_takeWhile column_of_def)
  then have col: "str_int (int failed - rfind 10 (take failed word)) = str_nat (column_of word failed)"
    by (simp add: str_int_nat)
  from True c0 show ?thesis
    by (simp add: error_message_def spec_error_message_def Let_def line col)
qed

lemma stop_indices_le:
  "start_idx \<le> length word \<Longrightarrow> s \<in> set (stop_indices dfas word start_idx) \<Longrightarrow> s \<le> length word"
proof -
  assume le: "start_idx \<le> length word" and "s \<in> set (stop_indices dfas word start_idx)"
  then obtain token :: pystr and dfa where
    s: "s = fst (snd (simulate dfa (q0 dfa) start_idx (drop start_idx word)))"
    by (auto simp: stop_indices_def)
  obtain ms stop sunk where
    sim: "simulate dfa (q0 dfa) start_idx (drop start_idx word) = (ms, stop, sunk)"
    by (cases "simulate dfa (q0 dfa) start_idx (drop start_idx word)") auto
  from simulate_bounds[OF sim] le s sim show ?thesis by simp
qed

lemma furthest_index_le:
  "start_idx \<le> length word \<Longrightarrow> furthest_index dfas word start_idx \<le> length word"
  unfolding furthest_index_def using stop_indices_le[of start_idx word _ dfas]
  by (subst Max_le_iff) auto

text \<open>
  Claim C3.  At a cursor where some category records a candidate, the step of \<open>lex\<close>
  emits the candidate with the greatest endpoint (\<open>longest_endpoint\<close>, the maximum over
  all recorded endpoints of all categories), under the first category in configuration
  order that recorded this endpoint (\<open>earliest_category\<close>), consumes the input up to
  and including that endpoint and goes on from the next index.
\<close>

theorem lex_longest_match_earliest_category:
  assumes "start_idx < length word"
    and "all_matches (candidates dfas word start_idx) \<noteq> []"
  shows "\<exists>token. earliest_category (candidates dfas word start_idx)
                    (longest_endpoint (candidates dfas word start_idx)) = Some token \<and>
           lex_loop dfas word start_idx out =
             lex_loop dfas word (longest_endpoint (candidates dfas word start_idx) + 1)
               (out @ [(Some token,
                  drop start_idx
                    (take (longest_endpoint (candidates dfas word start_idx) + 1) word))])"
proof -
  let ?c = "candidates dfas word start_idx"
  let ?d = "filter (\<lambda>(t, ms). ms \<noteq> []) ?c"
  obtain matches num_sinks failed where
    r: "run_dfas dfas (length dfas) word start_idx ([], 0, 0) = (matches, num_sinks, failed)"
    by (cases "run_dfas dfas (length dfas) word start_idx ([], 0, 0)") auto
  have d: "matches = ?d"
    using run_dfas_result[of 0 dfas "length dfas" word start_idx "[]" 0] r by simp
  from earliest_category_defined[OF assms(2)] obtain token where
    tok: "earliest_category ?c (longest_endpoint ?c) = Some token" by blast
  have "getLongestMatch ?d = Some (earliest_category ?d (longest_endpoint ?d), longest_endpoint ?d)"
    using assms(2) by (intro getLongestMatch_longest_earliest) (simp add: all_matches_filter)
  then have g: "getLongestMatch matches = Some (Some token, longest_endpoint ?c)"
    using tok by (simp add: d longest_endpoint_def all_matches_filter earliest_category_filter)
  have "lex_loop dfas word start_idx out =
             lex_loop dfas word (longest_endpoint ?c + 1)
               (out @ [(Some token, drop start_idx (take (longest_endpoint ?c + 1) word))])"
    using assms(1) by (subst lex_loop.simps) (simp add: r g)
  with tok show ?thesis by blast
qed

text \<open>
  Claim C5, as amended.  At a cursor where no category records a candidate, \<open>lex\<close> fails
  with the furthest index a DFA reached (\<open>furthest_index\<close>).  When the input contains
  a newline the message gives the 0-based line (the newlines up to and including that
  index) and the 1-based column in that line; \<open>EOF\<close> stands for the column exactly
  when the index is the length of the input.  When the input has no newline and the
  index is inside the input, the message gives the index itself (0-based) and line 0.
\<close>

theorem lex_error_position:
  assumes "start_idx < length word"
    and "all_matches (candidates dfas word start_idx) = []"
  shows "lex_loop dfas word start_idx out =
     Inl (if 10 \<in> set word \<or> furthest_index dfas word start_idx = length word
          then spec_error_message word (furthest_index dfas word start_idx)
          else py ''No viable alternative at character ''
                 @ str_nat (furthest_index dfas word start_idx) @ py '', line 0'')"
proof -
  let ?c = "candidates dfas word start_idx"
  obtain matches num_sinks failed where
    r: "run_dfas dfas (length dfas) word start_idx ([], 0, 0) = (matches, num_sinks, failed)"
    by (cases "run_dfas dfas (length dfas) word start_idx ([], 0, 0)") auto
  have "matches = filter (\<lambda>(t, ms). ms \<noteq> []) ?c"
    using run_dfas_result[of 0 dfas "length dfas" word start_idx "[]" 0] r by simp
  with assms(2) have m: "matches = []" by (simp add: filter_nonempty_Nil)
  have f: "failed = furthest_index dfas word start_idx"
    using run_dfas_result[of 0 dfas "length dfas" word start_idx "[]" 0] r
    by (simp add: furthest_index_def fold_max_Max)
  have le: "failed \<le> length word"
    unfolding f using assms(1) by (intro furthest_index_le) simp
  have "lex_loop dfas word start_idx out = Inl (error_message word failed)"
    using assms(1) by (subst lex_loop.simps) (simp add: r m getLongestMatch_def)
  then show ?thesis
    using error_message_spec[OF le] by (simp add: f)
qed

text \<open>The automata that the constructor builds for three small configurations.\<close>

definition dfa_a :: "nat DFA" where
  "dfa_a = \<lparr>q0 = 0, qfs = [1], states = [0, 1, 2],
     transitions = [(0, py ''a'', 1), (1, py ''a'', 2), (2, py ''a'', 2)], sink = Some 2\<rparr>"

definition dfa_newline :: "nat DFA" where
  "dfa_newline = \<lparr>q0 = 2, qfs = [3], states = [2, 3, 4],
     transitions = [(2, [10], 3), (3, [10], 4), (4, [10], 4)], sink = Some 4\<rparr>"

definition dfa_if :: "nat DFA" where
  "dfa_if = \<lparr>q0 = 0, qfs = [1], states = [0, 2, 3, 1],
     transitions = [(0, py ''f'', 2), (0, py ''i'', 3), (2, py ''f'', 2), (2, py ''i'', 2),
                    (3, py ''f'', 1), (3, py ''i'', 2), (1, py ''f'', 2), (1, py ''i'', 2)],
     sink = Some 2\<rparr>"

definition dfa_id :: "nat DFA" where
  "dfa_id = \<lparr>q0 = 4, qfs = [5, 6], states = [4, 5, 6],
     transitions = [(4, py ''f'', 5), (4, py ''i'', 6), (5, py ''f'', 5), (5, py ''i'', 6),
                    (6, py ''f'', 5), (6, py ''i'', 6)],
     sink = Some 7\<rparr>"

lemma example_configurations:
  "snd (Lexer_init priority Map.empty [(py ''A'', py ''a'')]) = Inr [(py ''A'', dfa_a)]"
  "snd (Lexer_init priority Map.empty [(py ''A'', py ''a''), (py ''NL'', [39, 10, 39])])
     = Inr [(py ''A'', dfa_a), (py ''NL'', dfa_newline)]"
  "snd (Lexer_init priority Map.empty [(py ''IF'', py ''if''), (py ''ID'', py ''(i|f)+'')])
     = Inr [(py ''IF'', dfa_if), (py ''ID'', dfa_id)]"
  unfolding dfa_a_def dfa_newline_def dfa_if_def dfa_id_def by code_simp+

lemmas lex_eval = Lexer_lex_def lex_loop.simps DFA_next_def getLongestMatch_def error_message_def
  str_nat.simps str_int_def candidates_def stop_indices_def all_matches_def
  longest_endpoint_def earliest_category_def furthest_index_def spec_error_message_def
  line_of_def column_of_def

theorem lex_longest_match_earliest_category_witness:
  "Lexer_lex [(py ''IF'', dfa_if), (py ''ID'', dfa_id)] (py ''if'') = Inr [(Some (py ''IF''), py ''if'')]
   \<and> Lexer_lex [(py ''ID'', dfa_id), (py ''IF'', dfa_if)] (py ''if'') = Inr [(Some (py ''ID''), py ''if'')]"
  using lex_longest_match_earliest_category
          [of 0 "py ''if''" "[(py ''IF'', dfa_if), (py ''ID'', dfa_id)]" "[]"]
        lex_longest_match_earliest_category
          [of 0 "py ''if''" "[(py ''ID'', dfa_id), (py ''IF'', dfa_if)]" "[]"]
  by (simp add: lex_eval dfa_if_def dfa_id_def)

theorem lex_error_position_witness:
  "lex_loop [(py ''A'', dfa_a), (py ''NL'', dfa_newline)] [97, 10, 97, 98] 3 []
     = Inl (py ''No viable alternative at character 2, line 1'') \<and>
   Lexer_lex [(py ''A'', dfa_a), (py ''NL'', dfa_newline)] [97, 10, 97, 98]
     = Inl (py ''No viable alternative at character 2, line 1'') \<and>
   Lexer_lex [(py ''A'', dfa_a)] (py ''a'') = Inr [(Some (py ''A''), py ''a'')]"
  using lex_error_position
          [of 3 "[97, 10, 97, 98]" "[(py ''A'', dfa_a), (py ''NL'', dfa_newline)]" "[]"]
  by (simp add: lex_eval dfa_a_def dfa_newline_def)

text \<open>
  Claim C5 as stated fails on a one-line input: the lexer of the configuration
  \<open>A = a\<close>, on the input \<open>ab\<close>, stops at index 1, whose 1-based column is 2, and
  reports character 1.
\<close>

theorem lex_single_line_column_counterexample:
  "snd (Lexer_init priority Map.empty [(py ''A'', py ''a'')]) = Inr [(py ''A'', dfa_a)]
   \<and> Lexer_lex [(py ''A'', dfa_a)] (py ''ab'')
         = Inl (py ''No viable alternative at character 1, line 0'')
   \<and> furthest_index [(py ''A'', dfa_a)] (py ''ab'') 1 = 1
   \<and> spec_error_message (py ''ab'') 1 = py ''No viable alternative at character 2, line 0''"
proof -
  have "Lexer_lex [(py ''A'', dfa_a)] (py ''ab'')
         = Inl (py ''No viable alternative at character 1, line 0'')
   \<and> furthest_index [(py ''A'', dfa_a)] (py ''ab'') 1 = 1
   \<and> spec_error_message (py ''ab'') 1 = py ''No viable alternative at character 2, line 0''"
    by (simp add: lex_eval dfa_a_def)
  with example_configurations(1) show ?thesis by (rule conjI)
qed


end
